theory Spec2Isabelle
  imports Complex_Main "HOL-Library.Multiset"
begin

section \<open>JSON documents and JavaScript values\<close>

text \<open>
  The workflow template is whatever \<^verbatim>\<open>JSON.parse\<close> returned for \<^verbatim>\<open>workflow.json\<close>
  (or the literal \<^verbatim>\<open>{}\<close>). A value of type \<open>json\<close> is such a value: an object is the
  list of its own properties in enumeration order, an array the list of its elements.
  A number is a finite one (the real it denotes), negative zero, an infinity or \<^verbatim>\<open>NaN\<close>:
  the literal \<^verbatim>\<open>1e400\<close> parses to \<^verbatim>\<open>Infinity\<close> and \<^verbatim>\<open>-0\<close> to negative zero (\<^verbatim>\<open>NaN\<close> has no
  literal, so that the parser never returns it; a caller may still pass it). The same
  type serves for a JSON text, read as what its literals denote.
  Console output is not part of the model.
\<close>

datatype number =
    Num real
  | NegZero
  | Infinity
  | NegInfinity
  | NaN

datatype json =
    JNull
  | JBool bool
  | JNum number
  | JStr string
  | JArr "json list"
  | JObj "(string \<times> json) list"

datatype js_error =
    TypeError string
  | Error string
  | FetchError string
  | SyntaxError string

fun message :: "js_error \<Rightarrow> string" where
  "message (TypeError m) = m"
| "message (Error m) = m"
| "message (FetchError m) = m"
| "message (SyntaxError m) = m"

subsection \<open>Decimal numerals and property order\<close>

definition digit_char :: "nat \<Rightarrow> char" where
  "digit_char d = ''0123456789'' ! d"

fun show_nat :: "nat \<Rightarrow> string" where
  "show_nat n = (if n < 10 then [digit_char n] else show_nat (n div 10) @ [digit_char (n mod 10)])"

declare show_nat.simps [simp del]

definition is_digit :: "char \<Rightarrow> bool" where
  "is_digit c = (c \<in> set ''0123456789'')"

definition digit_val :: "char \<Rightarrow> int" where
  "digit_val c = int (length (takeWhile (\<lambda>d. d \<noteq> c) ''0123456789''))"

definition digits_val :: "string \<Rightarrow> int" where
  "digits_val s = foldl (\<lambda>acc c. 10 * acc + digit_val c) 0 s"

text \<open>
  An array index is a canonical decimal numeral below \<open>2^32 - 1\<close>. The own properties of
  an object are enumerated with the array indices first, in ascending numeric order, then
  the other string keys in the order of their creation.
\<close>

definition array_index :: "string \<Rightarrow> int option" where
  "array_index k =
     (if k \<noteq> [] \<and> list_all is_digit k \<and> (k = ''0'' \<or> hd k \<noteq> CHR ''0'')
         \<and> digits_val k < 4294967295
      then Some (digits_val k) else None)"

definition key_before :: "string \<Rightarrow> string \<Rightarrow> bool" where
  "key_before k k' =
     (case array_index k of
        None \<Rightarrow> False
      | Some i \<Rightarrow> (case array_index k' of None \<Rightarrow> True | Some j \<Rightarrow> i < j))"

fun replace_own :: "(string \<times> 'v) list \<Rightarrow> string \<Rightarrow> 'v \<Rightarrow> (string \<times> 'v) list" where
  "replace_own [] k v = []"
| "replace_own ((k', v') # ms) k v =
     (if k' = k then (k, v) # ms else (k', v') # replace_own ms k v)"

fun insert_own :: "(string \<times> 'v) list \<Rightarrow> string \<Rightarrow> 'v \<Rightarrow> (string \<times> 'v) list" where
  "insert_own [] k v = [(k, v)]"
| "insert_own ((k', v') # ms) k v =
     (if key_before k k' then (k, v) # (k', v') # ms else (k', v') # insert_own ms k v)"

text \<open>Defining or assigning an own data property: an existing key keeps its place.\<close>

definition define_own :: "(string \<times> 'v) list \<Rightarrow> string \<Rightarrow> 'v \<Rightarrow> (string \<times> 'v) list" where
  "define_own ms k v = (if k \<in> set (map fst ms) then replace_own ms k v else insert_own ms k v)"

definition build_object :: "(string \<times> 'v) list \<Rightarrow> (string \<times> 'v) list" where
  "build_object ms = foldl (\<lambda>acc kv. define_own acc (fst kv) (snd kv)) [] ms"

subsection \<open>Reading, testing and writing properties\<close>

text \<open>
  \<open>get_prop v k\<close> is \<^verbatim>\<open>v[k]\<close> for a \<open>v\<close> that is not null and a key that no built-in
  prototype defines (\<^verbatim>\<open>class_type\<close>, \<^verbatim>\<open>inputs\<close>, \<^verbatim>\<open>image\<close>, \<^verbatim>\<open>filename_prefix\<close>,
  \<^verbatim>\<open>prompt_id\<close>, \<^verbatim>\<open>number\<close>); \<open>None\<close> is \<^verbatim>\<open>undefined\<close>.
\<close>

fun get_prop :: "json \<Rightarrow> string \<Rightarrow> json option" where
  "get_prop (JObj ms) k = map_of ms k"
| "get_prop v k = None"

fun truthy :: "json \<Rightarrow> bool" where
  "truthy JNull = False"
| "truthy (JBool b) = b"
| "truthy (JNum n) = (n \<noteq> Num 0 \<and> n \<noteq> NegZero \<and> n \<noteq> NaN)"
| "truthy (JStr s) = (s \<noteq> [])"
| "truthy (JArr xs) = True"
| "truthy (JObj ms) = True"

fun set_prop :: "json \<Rightarrow> string \<Rightarrow> json \<Rightarrow> json" where
  "set_prop (JObj ms) k v = JObj (define_own ms k v)"
| "set_prop j k v = j"

text \<open>\<^verbatim>\<open>node.class_type === c\<close>\<close>

definition class_is :: "json \<Rightarrow> string \<Rightarrow> bool" where
  "class_is node c = (get_prop node ''class_type'' = Some (JStr c))"

text \<open>\<^verbatim>\<open>node.inputs && node.inputs[k]\<close>, as a condition\<close>

definition has_truthy_input :: "json \<Rightarrow> string \<Rightarrow> bool" where
  "has_truthy_input node k =
     (case get_prop node ''inputs'' of
        None \<Rightarrow> False
      | Some i \<Rightarrow> truthy i \<and> (case get_prop i k of None \<Rightarrow> False | Some v \<Rightarrow> truthy v))"

text \<open>\<^verbatim>\<open>node.inputs[k] = v\<close>, reached only under the guard above\<close>

definition set_input :: "json \<Rightarrow> string \<Rightarrow> json \<Rightarrow> json" where
  "set_input node k v =
     (case get_prop node ''inputs'' of
        None \<Rightarrow> node
      | Some i \<Rightarrow> set_prop node ''inputs'' (set_prop i k v))"

definition input_of :: "json \<Rightarrow> string \<Rightarrow> json option" where
  "input_of node k = (case get_prop node ''inputs'' of None \<Rightarrow> None | Some i \<Rightarrow> get_prop i k)"

subsection \<open>The deep clone\<close>

text \<open>
  How \<^verbatim>\<open>JSON.stringify\<close> writes a number: a finite number as its literal, negative zero as
  \<^verbatim>\<open>0\<close>, an infinity and \<^verbatim>\<open>NaN\<close> as \<^verbatim>\<open>null\<close>.
\<close>

fun number_text :: "number \<Rightarrow> json" where
  "number_text (Num r) = JNum (Num r)"
| "number_text NegZero = JNum (Num 0)"
| "number_text Infinity = JNull"
| "number_text NegInfinity = JNull"
| "number_text NaN = JNull"

text \<open>
  \<^verbatim>\<open>JSON.parse(JSON.stringify(workflow))\<close>: the text lists the members of every object in
  enumeration order, and the parser defines them one after the other on a fresh object;
  numbers come back as the text has them.
\<close>

primrec deep_clone :: "json \<Rightarrow> json" where
  "deep_clone JNull = JNull"
| "deep_clone (JBool b) = JBool b"
| "deep_clone (JNum n) = number_text n"
| "deep_clone (JStr s) = JStr s"
| "deep_clone (JArr xs) = JArr (map deep_clone xs)"
| "deep_clone (JObj ms) = JObj (build_object (map (map_prod id deep_clone) ms))"

section \<open>Configuration constants\<close>

definition INPUT_FILENAME :: string where "INPUT_FILENAME = ''webcam_input.jpg''"
definition OUTPUT_PREFIX :: string where "OUTPUT_PREFIX = ''webcam_3d_mesh''"
definition MESH_FOLDER :: string where "MESH_FOLDER = ''mesh''"
definition PROMPT_DELAY_SECONDS :: nat where "PROMPT_DELAY_SECONDS = 5"

section \<open>updateWorkflowWithImage\<close>

definition null_class_type :: js_error where
  "null_class_type =
     TypeError (''Cannot read properties of null (reading '' @ [CHR 0x27] @ ''class_type''
                @ [CHR 0x27] @ '')'')"

text \<open>The loop body of \<^verbatim>\<open>src/app.js\<close>, lines 54 to 86.\<close>

definition patch_node_A :: "string \<Rightarrow> json \<Rightarrow> js_error + json" where
  "patch_node_A imageName node =
     (if node = JNull then Inl null_class_type
      else
        let n1 = (if class_is node ''LoadImage'' \<and> has_truthy_input node ''image''
                  then set_input node ''image'' (JStr imageName) else node);
            n2 = (if class_is n1 ''SaveImage'' \<and> has_truthy_input n1 ''filename_prefix''
                  then set_input n1 ''filename_prefix'' (JStr OUTPUT_PREFIX) else n1);
            n3 = (if class_is n2 ''SaveGLB'' \<and> has_truthy_input n2 ''filename_prefix''
                  then set_input n2 ''filename_prefix'' (JStr (MESH_FOLDER @ ''/'' @ OUTPUT_PREFIX))
                  else n2);
            n4 = (if (class_is n3 ''LoadImageMask'' \<or> class_is n3 ''ImageInput'')
                     \<and> has_truthy_input n3 ''image''
                  then set_input n3 ''image'' (JStr imageName) else n3)
        in Inr n4)"

text \<open>The loop body of \<^verbatim>\<open>src/unnamed/part_000\<close>, lines 143 to 168.\<close>

definition patch_node_B :: "string \<Rightarrow> json \<Rightarrow> js_error + json" where
  "patch_node_B imageName node =
     (if node = JNull then Inl null_class_type
      else
        let n1 = (if class_is node ''LoadImage'' \<and> has_truthy_input node ''image''
                  then set_input node ''image'' (JStr imageName) else node);
            n2 = (if class_is n1 ''SaveGLB'' \<and> has_truthy_input n1 ''filename_prefix''
                  then set_input n1 ''filename_prefix'' (JStr OUTPUT_PREFIX) else n1);
            n3 = (if (class_is n2 ''LoadImageMask'' \<or> class_is n2 ''ImageInput'')
                     \<and> has_truthy_input n2 ''image''
                  then set_input n2 ''image'' (JStr imageName) else n2)
        in Inr n3)"

text \<open>The \<^verbatim>\<open>for (const nodeId in updatedWorkflow)\<close> loop: it stops at the first throw.\<close>

fun for_in :: "('a \<Rightarrow> js_error + 'a) \<Rightarrow> 'a list \<Rightarrow> js_error + 'a list" where
  "for_in body [] = Inr []"
| "for_in body (x # xs) =
     (case body x of
        Inl e \<Rightarrow> Inl e
      | Inr y \<Rightarrow> (case for_in body xs of Inl e \<Rightarrow> Inl e | Inr ys \<Rightarrow> Inr (y # ys)))"

definition on_member :: "(json \<Rightarrow> js_error + json) \<Rightarrow> string \<times> json \<Rightarrow> js_error + string \<times> json" where
  "on_member body kv = (case body (snd kv) of Inl e \<Rightarrow> Inl e | Inr n \<Rightarrow> Inr (fst kv, n))"

text \<open>
  The loop over a value: the members of an object, the elements of an array; a string
  offers its characters (none has a \<^verbatim>\<open>class_type\<close>), the other values offer nothing.
\<close>

fun update_nodes :: "(json \<Rightarrow> js_error + json) \<Rightarrow> json \<Rightarrow> js_error + json" where
  "update_nodes body (JObj ms) =
     (case for_in (on_member body) ms of Inl e \<Rightarrow> Inl e | Inr ms' \<Rightarrow> Inr (JObj ms'))"
| "update_nodes body (JArr xs) =
     (case for_in body xs of Inl e \<Rightarrow> Inl e | Inr xs' \<Rightarrow> Inr (JArr xs'))"
| "update_nodes body v = Inr v"

definition updateWorkflowWithImage_A :: "json \<Rightarrow> string \<Rightarrow> js_error + json" where
  "updateWorkflowWithImage_A workflow imageName =
     update_nodes (patch_node_A imageName) (deep_clone workflow)"

definition updateWorkflowWithImage_B :: "json \<Rightarrow> string \<Rightarrow> js_error + json" where
  "updateWorkflowWithImage_B workflow imageName =
     update_nodes (patch_node_B imageName) (deep_clone workflow)"

section \<open>The compute client\<close>

definition COMFYUI_API_URL :: string where "COMFYUI_API_URL = ''http://127.0.0.1:8188''"

datatype http_method = GET | POST

record Request =
  req_method :: http_method
  req_url :: string
  req_headers :: "(string \<times> string) list"
  req_body :: "json option"
  req_timeout :: "nat option"

text \<open>
  A response as the stubbed transport hands it over: the status line and what
  \<^verbatim>\<open>response.text()\<close> and \<^verbatim>\<open>response.json()\<close> resolve to or reject with.
\<close>

record Response =
  status :: nat
  statusText :: string
  text_body :: "js_error + string"
  json_body :: "js_error + json"

definition ok :: "Response \<Rightarrow> bool" where
  "ok r = (200 \<le> status r \<and> status r \<le> 299)"

text \<open>
  The transport answers a request, knowing the requests made before it, with a response
  or with the error \<^verbatim>\<open>fetch\<close> rejects with. The list of requests made is the state.
\<close>

type_synonym transport = "Request list \<Rightarrow> Request \<Rightarrow> js_error + Response"

definition fetch :: "transport \<Rightarrow> Request \<Rightarrow> Request list \<Rightarrow> (js_error + Response) \<times> Request list" where
  "fetch tr req calls = (tr calls req, calls @ [req])"

record QueueResult =
  success :: bool
  prompt_id :: "json option"
  number :: "json option"
  error :: "string option"

text \<open>The \<^verbatim>\<open>catch\<close> block of \<^verbatim>\<open>queueComfyUIPrompt\<close>.\<close>

definition caught :: "js_error \<Rightarrow> QueueResult" where
  "caught e = \<lparr>success = False, prompt_id = None, number = None, error = Some (message e)\<rparr>"

definition null_property :: "string \<Rightarrow> js_error" where
  "null_property k =
     TypeError (''Cannot read properties of null (reading '' @ [CHR 0x27] @ k @ [CHR 0x27] @ '')'')"

definition queued :: "json \<Rightarrow> QueueResult" where
  "queued result =
     (if result = JNull then caught (null_property ''prompt_id'')
      else \<lparr>success = True, prompt_id = get_prop result ''prompt_id'',
            number = get_prop result ''number'', error = None\<rparr>)"

definition prompt_data :: "json \<Rightarrow> nat \<Rightarrow> json" where
  "prompt_data updatedWorkflow now =
     JObj [(''prompt'', updatedWorkflow), (''client_id'', JStr (''webcam_app_'' @ show_nat now))]"

definition health_request_A :: Request where
  "health_request_A =
     \<lparr>req_method = GET, req_url = COMFYUI_API_URL @ ''/system_stats'', req_headers = [],
      req_body = None, req_timeout = None\<rparr>"

definition prompt_request_A :: "json \<Rightarrow> Request" where
  "prompt_request_A promptData =
     \<lparr>req_method = POST, req_url = COMFYUI_API_URL @ ''/prompt'',
      req_headers = [(''Content-Type'', ''application/json'')],
      req_body = Some promptData, req_timeout = None\<rparr>"

text \<open>
  \<^verbatim>\<open>queueComfyUIPrompt\<close> of \<^verbatim>\<open>src/app.js\<close>; \<open>now\<close> is what \<^verbatim>\<open>Date.now()\<close> returns,
  \<open>calls\<close> the requests made so far.
\<close>

definition queueComfyUIPrompt_A ::
    "transport \<Rightarrow> nat \<Rightarrow> json \<Rightarrow> string \<Rightarrow> Request list \<Rightarrow> QueueResult \<times> Request list" where
  "queueComfyUIPrompt_A tr now workflow filename calls =
     (case fetch tr health_request_A calls of
        (Inl e, calls1) \<Rightarrow> (caught e, calls1)
      | (Inr healthCheck, calls1) \<Rightarrow>
          if \<not> ok healthCheck then (caught (Error ''ComfyUI server not responding''), calls1)
          else
            (case updateWorkflowWithImage_A workflow filename of
               Inl e \<Rightarrow> (caught e, calls1)
             | Inr updatedWorkflow \<Rightarrow>
                 (case fetch tr (prompt_request_A (prompt_data updatedWorkflow now)) calls1 of
                    (Inl e, calls2) \<Rightarrow> (caught e, calls2)
                  | (Inr response, calls2) \<Rightarrow>
                      if \<not> ok response
                      then (caught (Error (''ComfyUI API error: '' @ show_nat (status response)
                                           @ '' '' @ statusText response)), calls2)
                      else
                        (case json_body response of
                           Inl e \<Rightarrow> (caught e, calls2)
                         | Inr result \<Rightarrow> (queued result, calls2)))))"

definition health_request_B :: Request where
  "health_request_B =
     \<lparr>req_method = GET, req_url = COMFYUI_API_URL @ ''/system_stats'',
      req_headers = [(''User-Agent'', ''webcam-comfyui-app'')],
      req_body = None, req_timeout = Some 5000\<rparr>"

definition prompt_request_B :: "json \<Rightarrow> Request" where
  "prompt_request_B promptData =
     \<lparr>req_method = POST, req_url = COMFYUI_API_URL @ ''/prompt'',
      req_headers = [(''Content-Type'', ''application/json''),
                     (''User-Agent'', ''webcam-comfyui-app'')],
      req_body = Some promptData, req_timeout = Some 10000\<rparr>"

text \<open>\<^verbatim>\<open>queueComfyUIPrompt\<close> of \<^verbatim>\<open>src/unnamed/part_000\<close>.\<close>

definition queueComfyUIPrompt_B ::
    "transport \<Rightarrow> nat \<Rightarrow> json \<Rightarrow> string \<Rightarrow> Request list \<Rightarrow> QueueResult \<times> Request list" where
  "queueComfyUIPrompt_B tr now workflow filename calls =
     (case fetch tr health_request_B calls of
        (Inl e, calls1) \<Rightarrow> (caught e, calls1)
      | (Inr healthCheck, calls1) \<Rightarrow>
          if \<not> ok healthCheck
          then (caught (Error (''ComfyUI server returned status: ''
                               @ show_nat (status healthCheck))), calls1)
          else
            (case updateWorkflowWithImage_B workflow filename of
               Inl e \<Rightarrow> (caught e, calls1)
             | Inr updatedWorkflow \<Rightarrow>
                 (case fetch tr (prompt_request_B (prompt_data updatedWorkflow now)) calls1 of
                    (Inl e, calls2) \<Rightarrow> (caught e, calls2)
                  | (Inr response, calls2) \<Rightarrow>
                      if \<not> ok response
                      then
                        (case text_body response of
                           Inl e \<Rightarrow> (caught e, calls2)
                         | Inr errorText \<Rightarrow>
                             (caught (Error (''ComfyUI API error: '' @ show_nat (status response)
                                             @ '' '' @ statusText response @ '' - '' @ errorText)),
                              calls2))
                      else
                        (case json_body response of
                           Inl e \<Rightarrow> (caught e, calls2)
                         | Inr result \<Rightarrow> (queued result, calls2)))))"

section \<open>The artifact index\<close>

definition MODEL_MESH_FOLDER :: string where
  "MODEL_MESH_FOLDER =
     ''D:/ComfyUI_windows_portable_nvidia/webcam-comfyui-3D-app-main/public/models/mesh''"

record Stats =
  size_of :: nat
  mtime :: int

text \<open>
  What the scan can meet: \<^verbatim>\<open>existsSync\<close> is false; or \<^verbatim>\<open>readdirSync\<close> throws; or it
  returns the names, each with what \<^verbatim>\<open>statSync\<close> gives for it (or throws).
  Modification times are in milliseconds.
\<close>

datatype dir_state =
    Missing
  | Unreadable js_error
  | Dir "(string \<times> (js_error + Stats)) list"

record Artifact =
  name :: string
  path :: string
  url :: string
  size_bytes :: nat
  created :: int
  modified :: int

text \<open>
  \<^verbatim>\<open>toLowerCase\<close> on the letters A to Z; no other character becomes one of
  \<^verbatim>\<open>.\<close>, \<^verbatim>\<open>g\<close>, \<^verbatim>\<open>l\<close>, \<^verbatim>\<open>b\<close>, so the suffix test below decides as the source's does.
\<close>

definition lower_char :: "char \<Rightarrow> char" where
  "lower_char c =
     (case map_of (zip ''ABCDEFGHIJKLMNOPQRSTUVWXYZ'' ''abcdefghijklmnopqrstuvwxyz'') c of
        None \<Rightarrow> c
      | Some l \<Rightarrow> l)"

definition toLowerCase :: "string \<Rightarrow> string" where
  "toLowerCase s = map lower_char s"

definition endsWith :: "string \<Rightarrow> string \<Rightarrow> bool" where
  "endsWith s suf = (length suf \<le> length s \<and> drop (length s - length suf) s = suf)"

definition isGLB :: "string \<Rightarrow> bool" where
  "isGLB file = endsWith (toLowerCase file) ''.glb''"

text \<open>
  \<^verbatim>\<open>Array.prototype.sort\<close> with a comparison function: a stable sort; \<open>cmp a b > 0\<close> puts
  \<open>a\<close> after \<open>b\<close>.
\<close>

fun insert_cmp :: "('a \<Rightarrow> 'a \<Rightarrow> int) \<Rightarrow> 'a \<Rightarrow> 'a list \<Rightarrow> 'a list" where
  "insert_cmp cmp x [] = [x]"
| "insert_cmp cmp x (y # ys) = (if cmp x y \<le> 0 then x # y # ys else y # insert_cmp cmp x ys)"

fun sort_cmp :: "('a \<Rightarrow> 'a \<Rightarrow> int) \<Rightarrow> 'a list \<Rightarrow> 'a list" where
  "sort_cmp cmp [] = []"
| "sort_cmp cmp (x # xs) = insert_cmp cmp x (sort_cmp cmp xs)"

text \<open>The \<^verbatim>\<open>.map\<close> callback of \<^verbatim>\<open>findGLBFiles\<close>; \<open>path_join\<close> is \<^verbatim>\<open>path.join\<close>.\<close>

definition to_artifact ::
    "(string \<Rightarrow> string \<Rightarrow> string) \<Rightarrow> string \<times> (js_error + Stats) \<Rightarrow> js_error + Artifact" where
  "to_artifact path_join entry =
     (case snd entry of
        Inl e \<Rightarrow> Inl e
      | Inr stats \<Rightarrow>
          Inr \<lparr>name = fst entry, path = path_join MODEL_MESH_FOLDER (fst entry),
               url = ''/mesh/'' @ fst entry, size_bytes = size_of stats,
               created = mtime stats, modified = mtime stats\<rparr>)"

fun map_throwing :: "('a \<Rightarrow> js_error + 'b) \<Rightarrow> 'a list \<Rightarrow> js_error + 'b list" where
  "map_throwing f [] = Inr []"
| "map_throwing f (x # xs) =
     (case f x of
        Inl e \<Rightarrow> Inl e
      | Inr y \<Rightarrow> (case map_throwing f xs of Inl e \<Rightarrow> Inl e | Inr ys \<Rightarrow> Inr (y # ys)))"

definition findGLBFiles :: "(string \<Rightarrow> string \<Rightarrow> string) \<Rightarrow> dir_state \<Rightarrow> Artifact list" where
  "findGLBFiles path_join d =
     (case d of
        Missing \<Rightarrow> []
      | Unreadable e \<Rightarrow> []
      | Dir entries \<Rightarrow>
          (case map_throwing (to_artifact path_join) (filter (\<lambda>entry. isGLB (fst entry)) entries) of
             Inl e \<Rightarrow> []
           | Inr files \<Rightarrow> sort_cmp (\<lambda>a b. created b - created a) files))"

definition findLatestGLBFile :: "(string \<Rightarrow> string \<Rightarrow> string) \<Rightarrow> dir_state \<Rightarrow> Artifact option" where
  "findLatestGLBFile path_join d =
     (let files = findGLBFiles path_join d
      in if length files > 0 then Some (files ! 0) else None)"

section \<open>The capture route\<close>

definition COMFYUI_INPUT_FOLDER_A :: string where
  "COMFYUI_INPUT_FOLDER_A =
     ''C:/Users/Ideas/Documents/ComfyUI_windows_portable_nvidia/ComfyUI_windows_portable/ComfyUI/input''"

definition COMFYUI_INPUT_FOLDER_B :: string where
  "COMFYUI_INPUT_FOLDER_B =
     ''D:/ComfyUI_windows_portable_nvidia/ComfyUI_windows_portable/ComfyUI/input''"

text \<open>\<^verbatim>\<open>Object.keys(v).length\<close>\<close>

fun keys_length :: "json \<Rightarrow> js_error + nat" where
  "keys_length JNull = Inl (TypeError ''Cannot convert undefined or null to object'')"
| "keys_length (JObj ms) = Inr (length ms)"
| "keys_length (JArr xs) = Inr (length xs)"
| "keys_length (JStr s) = Inr (length s)"
| "keys_length v = Inr 0"

text \<open>\<^verbatim>\<open>imageData.replace(/^data:image\/jpeg;base64,/, '')\<close>\<close>

definition strip_data_prefix :: "string \<Rightarrow> string" where
  "strip_data_prefix s =
     (let p = ''data:image/jpeg;base64,''
      in if take (length p) s = p then drop (length p) s else s)"

text \<open>The deferred task: \<^verbatim>\<open>queueComfyUIPrompt(workflowTemplate, filename)\<close>, to be run later.\<close>

datatype deferred = QueuePrompt json string

text \<open>
  What one request leaves behind: the response (status and body), the files written
  (path and the base64 text whose decoding is the content) and the timers registered
  (delay in milliseconds and task).
\<close>

record Outcome =
  res_status :: nat
  res_body :: json
  written :: "(string \<times> string) list"
  timers :: "(nat \<times> deferred) list"

definition failed_to_save :: "(string \<times> string) list \<Rightarrow> Outcome" where
  "failed_to_save ws =
     \<lparr>res_status = 500, res_body = JObj [(''error'', JStr ''Failed to save frame'')],
      written = ws, timers = []\<rparr>"

text \<open>
  The handler of \<^verbatim>\<open>POST /save-frame\<close>. \<open>body\<close> is \<^verbatim>\<open>req.body\<close> (\<open>None\<close> when undefined),
  \<open>write_error\<close> what \<^verbatim>\<open>fs.writeFileSync\<close> throws, if it does. \<open>folder\<close> and \<open>extra\<close> are
  the input folder and the last field of the success payload, which differ between the
  two servers.
\<close>

definition save_frame ::
    "string \<Rightarrow> string \<times> json \<Rightarrow> (string \<Rightarrow> string \<Rightarrow> string) \<Rightarrow> js_error option \<Rightarrow> json
       \<Rightarrow> json option \<Rightarrow> Outcome" where
  "save_frame folder extra path_join write_error workflowTemplate body =
     (case body of
        None \<Rightarrow> failed_to_save []
      | Some b \<Rightarrow>
          if b = JNull then failed_to_save []
          else
            (case get_prop b ''imageData'' of
               None \<Rightarrow>
                 \<lparr>res_status = 400, res_body = JObj [(''error'', JStr ''Missing imageData'')],
                  written = [], timers = []\<rparr>
             | Some imageData \<Rightarrow>
                 if \<not> truthy imageData then
                   \<lparr>res_status = 400, res_body = JObj [(''error'', JStr ''Missing imageData'')],
                    written = [], timers = []\<rparr>
                 else
                   (case imageData of
                      JStr s \<Rightarrow>
                        (let filename = INPUT_FILENAME;
                             base64Data = strip_data_prefix s;
                             filePath = path_join folder filename
                         in case write_error of
                              Some e \<Rightarrow> failed_to_save []
                            | None \<Rightarrow>
                                (case keys_length workflowTemplate of
                                   Inl e \<Rightarrow> failed_to_save [(filePath, base64Data)]
                                 | Inr n \<Rightarrow>
                                     \<lparr>res_status = 200,
                                      res_body = JObj
                                        [(''success'', JBool True),
                                         (''message'', JStr (''Frame saved to '' @ filePath)),
                                         (''filename'', JStr filename),
                                         (''path'', JStr filePath),
                                         (''comfyui_enabled'', JBool (n > 0)),
                                         (''delay_seconds'', JNum (Num (real PROMPT_DELAY_SECONDS))),
                                         extra],
                                      written = [(filePath, base64Data)],
                                      timers =
                                        (if n > 0
                                         then [(PROMPT_DELAY_SECONDS * 1000,
                                                QueuePrompt workflowTemplate filename)]
                                         else [])\<rparr>))
                    | _ \<Rightarrow> failed_to_save [])))"

definition save_frame_A ::
    "(string \<Rightarrow> string \<Rightarrow> string) \<Rightarrow> js_error option \<Rightarrow> json \<Rightarrow> json option \<Rightarrow> Outcome" where
  "save_frame_A = save_frame COMFYUI_INPUT_FOLDER_A (''overwrite_mode'', JBool True)"

definition save_frame_B ::
    "(string \<Rightarrow> string \<Rightarrow> string) \<Rightarrow> js_error option \<Rightarrow> json \<Rightarrow> json option \<Rightarrow> Outcome" where
  "save_frame_B = save_frame COMFYUI_INPUT_FOLDER_B (''mesh_folder'', JStr MODEL_MESH_FOLDER)"

section \<open>The same code on a heap of objects\<close>

text \<open>
  Objects and arrays live in a heap and are known by their address; a value is a
  primitive or a reference. Allocation appends a cell, so an address is valid when it is
  below the length of the heap. The template is a value in such a heap, and
  \<^verbatim>\<open>updateWorkflowWithImage\<close> reads it, allocates the clone and assigns into the clone.
\<close>

type_synonym addr = nat

datatype hval =
    VNull
  | VBool bool
  | VNum number
  | VStr string
  | VRef addr

datatype hobj =
    HObject "(string \<times> hval) list"
  | HArray "hval list"

type_synonym heap = "hobj list"

definition circular :: js_error where
  "circular = TypeError ''Converting circular structure to JSON''"

definition dangling :: js_error where
  "dangling = Error ''reference outside the heap''"

text \<open>
  \<^verbatim>\<open>JSON.stringify\<close>: the serialiser keeps the stack of the objects it is inside of and
  throws when it meets one of them again. A reference outside the heap does not occur in
  a running program; the model answers it with an error of its own.
\<close>

function stringify_val :: "heap \<Rightarrow> addr list \<Rightarrow> hval \<Rightarrow> js_error + json"
  and stringify_vals :: "heap \<Rightarrow> addr list \<Rightarrow> hval list \<Rightarrow> js_error + json list" where
  "stringify_val h stack VNull = Inr JNull"
| "stringify_val h stack (VBool b) = Inr (JBool b)"
| "stringify_val h stack (VNum n) = Inr (number_text n)"
| "stringify_val h stack (VStr s) = Inr (JStr s)"
| "stringify_val h stack (VRef a) =
     (if a \<in> set stack then Inl circular
      else if length h \<le> a then Inl dangling
      else
        (case h ! a of
           HArray vs \<Rightarrow>
             (case stringify_vals h (a # stack) vs of
                Inl e \<Rightarrow> Inl e
              | Inr js \<Rightarrow> Inr (JArr js))
         | HObject ms \<Rightarrow>
             (case stringify_vals h (a # stack) (map snd ms) of
                Inl e \<Rightarrow> Inl e
              | Inr js \<Rightarrow> Inr (JObj (zip (map fst ms) js)))))"
| "stringify_vals h stack [] = Inr []"
| "stringify_vals h stack (v # vs) =
     (case stringify_val h stack v of
        Inl e \<Rightarrow> Inl e
      | Inr j \<Rightarrow>
          (case stringify_vals h stack vs of
             Inl e \<Rightarrow> Inl e
           | Inr js \<Rightarrow> Inr (j # js)))"
  by pat_completeness auto

termination
proof (relation "inv_image (less_than <*lex*> less_than)
    (\<lambda>x. case x of
        Inl (h, stack, v) \<Rightarrow> (card ({..<length h} - set stack), 0)
      | Inr (h, stack, vs) \<Rightarrow> (card ({..<length h} - set stack), Suc (length vs)))",
    goal_cases)
  case 1
  show ?case by (intro wf_inv_image wf_lex_prod wf_less_than)
next
  case (2 h stack a vs)
  then have "a \<in> {..<length h} - set stack" by simp
  then have "card ({..<length h} - set stack - {a}) < card ({..<length h} - set stack)"
    by (intro card_Diff1_less) simp_all
  moreover have "{..<length h} - set (a # stack) = {..<length h} - set stack - {a}" by auto
  ultimately show ?case by simp
next
  case (3 h stack a ms)
  then have "a \<in> {..<length h} - set stack" by simp
  then have "card ({..<length h} - set stack - {a}) < card ({..<length h} - set stack)"
    by (intro card_Diff1_less) simp_all
  moreover have "{..<length h} - set (a # stack) = {..<length h} - set stack - {a}" by auto
  ultimately show ?case by simp
qed simp_all

text \<open>
  \<^verbatim>\<open>JSON.parse\<close>, from the parsed text on: every array and object of the document is a
  new cell; the members of an object are defined on it one after the other.
\<close>

fun JSON_parse :: "json \<Rightarrow> heap \<Rightarrow> hval \<times> heap"
  and parse_elements :: "json list \<Rightarrow> heap \<Rightarrow> hval list \<times> heap"
  and parse_members :: "(string \<times> json) list \<Rightarrow> heap \<Rightarrow> (string \<times> hval) list \<times> heap" where
  "JSON_parse JNull h = (VNull, h)"
| "JSON_parse (JBool b) h = (VBool b, h)"
| "JSON_parse (JNum n) h = (VNum n, h)"
| "JSON_parse (JStr s) h = (VStr s, h)"
| "JSON_parse (JArr xs) h =
     (case parse_elements xs h of (vs, h') \<Rightarrow> (VRef (length h'), h' @ [HArray vs]))"
| "JSON_parse (JObj ms) h =
     (case parse_members ms h of
        (cells, h') \<Rightarrow> (VRef (length h'), h' @ [HObject (build_object cells)]))"
| "parse_elements [] h = ([], h)"
| "parse_elements (x # xs) h =
     (case JSON_parse x h of
        (v, h1) \<Rightarrow> (case parse_elements xs h1 of (vs, h2) \<Rightarrow> (v # vs, h2)))"
| "parse_members [] h = ([], h)"
| "parse_members (m # ms) h =
     (case JSON_parse (snd m) h of
        (v, h1) \<Rightarrow> (case parse_members ms h1 of (cells, h2) \<Rightarrow> ((fst m, v) # cells, h2)))"

subsection \<open>Reading and writing through references\<close>

definition get_prop_h :: "heap \<Rightarrow> hval \<Rightarrow> string \<Rightarrow> hval option" where
  "get_prop_h h v k =
     (case v of
        VRef a \<Rightarrow>
          (if a < length h
           then (case h ! a of HObject ms \<Rightarrow> map_of ms k | HArray vs \<Rightarrow> None)
           else None)
      | _ \<Rightarrow> None)"

fun truthy_h :: "hval \<Rightarrow> bool" where
  "truthy_h VNull = False"
| "truthy_h (VBool b) = b"
| "truthy_h (VNum n) = (n \<noteq> Num 0 \<and> n \<noteq> NegZero \<and> n \<noteq> NaN)"
| "truthy_h (VStr s) = (s \<noteq> [])"
| "truthy_h (VRef a) = True"

definition set_prop_h :: "heap \<Rightarrow> hval \<Rightarrow> string \<Rightarrow> hval \<Rightarrow> heap" where
  "set_prop_h h v k x =
     (case v of
        VRef a \<Rightarrow>
          (if a < length h
           then (case h ! a of
                   HObject ms \<Rightarrow> h[a := HObject (define_own ms k x)]
                 | HArray vs \<Rightarrow> h)
           else h)
      | _ \<Rightarrow> h)"

definition class_is_h :: "heap \<Rightarrow> hval \<Rightarrow> string \<Rightarrow> bool" where
  "class_is_h h node c = (get_prop_h h node ''class_type'' = Some (VStr c))"

definition has_truthy_input_h :: "heap \<Rightarrow> hval \<Rightarrow> string \<Rightarrow> bool" where
  "has_truthy_input_h h node k =
     (case get_prop_h h node ''inputs'' of
        None \<Rightarrow> False
      | Some i \<Rightarrow> truthy_h i \<and> (case get_prop_h h i k of None \<Rightarrow> False | Some v \<Rightarrow> truthy_h v))"

definition set_input_h :: "heap \<Rightarrow> hval \<Rightarrow> string \<Rightarrow> hval \<Rightarrow> heap" where
  "set_input_h h node k x =
     (case get_prop_h h node ''inputs'' of
        None \<Rightarrow> h
      | Some i \<Rightarrow> set_prop_h h i k x)"

subsection \<open>The loop bodies and the loop\<close>

definition patch_node_h_A :: "string \<Rightarrow> hval \<Rightarrow> heap \<Rightarrow> js_error option \<times> heap" where
  "patch_node_h_A imageName node h =
     (if node = VNull then (Some null_class_type, h)
      else
        let h1 = (if class_is_h h node ''LoadImage'' \<and> has_truthy_input_h h node ''image''
                  then set_input_h h node ''image'' (VStr imageName) else h);
            h2 = (if class_is_h h1 node ''SaveImage'' \<and> has_truthy_input_h h1 node ''filename_prefix''
                  then set_input_h h1 node ''filename_prefix'' (VStr OUTPUT_PREFIX) else h1);
            h3 = (if class_is_h h2 node ''SaveGLB'' \<and> has_truthy_input_h h2 node ''filename_prefix''
                  then set_input_h h2 node ''filename_prefix''
                         (VStr (MESH_FOLDER @ ''/'' @ OUTPUT_PREFIX))
                  else h2);
            h4 = (if (class_is_h h3 node ''LoadImageMask'' \<or> class_is_h h3 node ''ImageInput'')
                     \<and> has_truthy_input_h h3 node ''image''
                  then set_input_h h3 node ''image'' (VStr imageName) else h3)
        in (None, h4))"

definition patch_node_h_B :: "string \<Rightarrow> hval \<Rightarrow> heap \<Rightarrow> js_error option \<times> heap" where
  "patch_node_h_B imageName node h =
     (if node = VNull then (Some null_class_type, h)
      else
        let h1 = (if class_is_h h node ''LoadImage'' \<and> has_truthy_input_h h node ''image''
                  then set_input_h h node ''image'' (VStr imageName) else h);
            h2 = (if class_is_h h1 node ''SaveGLB'' \<and> has_truthy_input_h h1 node ''filename_prefix''
                  then set_input_h h1 node ''filename_prefix'' (VStr OUTPUT_PREFIX) else h1);
            h3 = (if (class_is_h h2 node ''LoadImageMask'' \<or> class_is_h h2 node ''ImageInput'')
                     \<and> has_truthy_input_h h2 node ''image''
                  then set_input_h h2 node ''image'' (VStr imageName) else h2)
        in (None, h3))"

text \<open>
  \<^verbatim>\<open>for (const nodeId in updatedWorkflow)\<close>: the keys are those the object has when the loop
  starts; each is looked up when its turn comes (a key that is gone by then is skipped).
  For an array the keys are its indices.
\<close>

fun for_in_keys ::
    "(hval \<Rightarrow> heap \<Rightarrow> js_error option \<times> heap) \<Rightarrow> hval \<Rightarrow> string list \<Rightarrow> heap
       \<Rightarrow> js_error option \<times> heap" where
  "for_in_keys body obj [] h = (None, h)"
| "for_in_keys body obj (k # ks) h =
     (case get_prop_h h obj k of
        None \<Rightarrow> for_in_keys body obj ks h
      | Some node \<Rightarrow>
          (case body node h of
             (Some e, h') \<Rightarrow> (Some e, h')
           | (None, h') \<Rightarrow> for_in_keys body obj ks h'))"

definition get_index_h :: "heap \<Rightarrow> hval \<Rightarrow> nat \<Rightarrow> hval option" where
  "get_index_h h v i =
     (case v of
        VRef a \<Rightarrow>
          (if a < length h
           then (case h ! a of
                   HArray vs \<Rightarrow> (if i < length vs then Some (vs ! i) else None)
                 | HObject ms \<Rightarrow> None)
           else None)
      | _ \<Rightarrow> None)"

fun for_in_indices ::
    "(hval \<Rightarrow> heap \<Rightarrow> js_error option \<times> heap) \<Rightarrow> hval \<Rightarrow> nat list \<Rightarrow> heap
       \<Rightarrow> js_error option \<times> heap" where
  "for_in_indices body arr [] h = (None, h)"
| "for_in_indices body arr (i # is) h =
     (case get_index_h h arr i of
        None \<Rightarrow> for_in_indices body arr is h
      | Some node \<Rightarrow>
          (case body node h of
             (Some e, h') \<Rightarrow> (Some e, h')
           | (None, h') \<Rightarrow> for_in_indices body arr is h'))"

definition update_nodes_h ::
    "(hval \<Rightarrow> heap \<Rightarrow> js_error option \<times> heap) \<Rightarrow> hval \<Rightarrow> heap \<Rightarrow> js_error option \<times> heap" where
  "update_nodes_h body obj h =
     (case obj of
        VRef a \<Rightarrow>
          (if a < length h
           then (case h ! a of
                   HObject ms \<Rightarrow> for_in_keys body obj (map fst ms) h
                 | HArray vs \<Rightarrow> for_in_indices body obj [0..<length vs] h)
           else (None, h))
      | _ \<Rightarrow> (None, h))"

text \<open>
  \<^verbatim>\<open>updateWorkflowWithImage\<close> on the heap: the value returned (or the error thrown) and
  the heap it leaves.
\<close>

definition update_h ::
    "(hval \<Rightarrow> heap \<Rightarrow> js_error option \<times> heap) \<Rightarrow> hval \<Rightarrow> heap \<Rightarrow> (js_error + hval) \<times> heap" where
  "update_h body workflow h =
     (case stringify_val h [] workflow of
        Inl e \<Rightarrow> (Inl e, h)
      | Inr text \<Rightarrow>
          (case JSON_parse text h of
             (updatedWorkflow, h1) \<Rightarrow>
               (case update_nodes_h body updatedWorkflow h1 of
                  (Some e, h2) \<Rightarrow> (Inl e, h2)
                | (None, h2) \<Rightarrow> (Inr updatedWorkflow, h2))))"

definition updateWorkflowWithImage_h_A :: "hval \<Rightarrow> string \<Rightarrow> heap \<Rightarrow> (js_error + hval) \<times> heap" where
  "updateWorkflowWithImage_h_A workflow imageName h = update_h (patch_node_h_A imageName) workflow h"

definition updateWorkflowWithImage_h_B :: "hval \<Rightarrow> string \<Rightarrow> heap \<Rightarrow> (js_error + hval) \<times> heap" where
  "updateWorkflowWithImage_h_B workflow imageName h = update_h (patch_node_h_B imageName) workflow h"

text \<open>Any number of calls, one after the other, the results dropped.\<close>

fun repeat_calls :: "nat \<Rightarrow> (heap \<Rightarrow> 'r \<times> heap) \<Rightarrow> heap \<Rightarrow> heap" where
  "repeat_calls 0 call h = h"
| "repeat_calls (Suc n) call h = repeat_calls n call (snd (call h))"

section \<open>Vocabulary of the properties\<close>

definition canon_keys :: "string list \<Rightarrow> bool" where
  "canon_keys ks = (distinct ks \<and> sorted_wrt (\<lambda>a b. \<not> key_before b a) ks)"

fun canonical :: "json \<Rightarrow> bool" where
  "canonical (JObj ms) = (canon_keys (map fst ms) \<and> (\<forall>kv \<in> set ms. canonical (snd kv)))"
| "canonical (JArr xs) = (\<forall>x \<in> set xs. canonical x)"
| "canonical v = True"

text \<open>
  \<open>plain j\<close>: every number in \<open>j\<close> is finite and not negative zero; these are the documents
  \<^verbatim>\<open>JSON.stringify\<close> writes, and the values a JSON round trip gives back as they are.
\<close>

fun plain :: "json \<Rightarrow> bool" where
  "plain (JNum n) = (case n of Num r \<Rightarrow> True | _ \<Rightarrow> False)"
| "plain (JArr xs) = (\<forall>x \<in> set xs. plain x)"
| "plain (JObj ms) = (\<forall>kv \<in> set ms. plain (snd kv))"
| "plain v = True"

fun nodes :: "json \<Rightarrow> json list" where
  "nodes (JObj ms) = map snd ms"
| "nodes (JArr xs) = xs"
| "nodes v = []"

fun node_ids :: "json \<Rightarrow> string list" where
  "node_ids (JObj ms) = map fst ms"
| "node_ids (JArr xs) = map show_nat [0..<length xs]"
| "node_ids v = []"


definition target_key :: "json \<Rightarrow> string" where
  "target_key node =
     (if class_is node ''SaveImage'' \<or> class_is node ''SaveGLB'' then ''filename_prefix''
      else ''image'')"

subsection \<open>Heaps\<close>

text \<open>
  \<open>extends h h'\<close>: the heap \<open>h\<close> is a prefix of \<open>h'\<close>, so every cell of \<open>h\<close> is still there,
  unchanged. \<open>fresh L v\<close>: the value refers to no cell below \<open>L\<close>. \<open>region L h\<close>: no cell
  from \<open>L\<close> on refers to a cell below \<open>L\<close>.
\<close>

fun fresh :: "nat \<Rightarrow> hval \<Rightarrow> bool" where
  "fresh L (VRef a) = (L \<le> a)"
| "fresh L v = True"

fun cell_values :: "hobj \<Rightarrow> hval list" where
  "cell_values (HObject ms) = map snd ms"
| "cell_values (HArray vs) = vs"

definition region :: "nat \<Rightarrow> heap \<Rightarrow> bool" where
  "region L h = (\<forall>a. L \<le> a \<and> a < length h \<longrightarrow> (\<forall>v \<in> set (cell_values (h ! a)). fresh L v))"

definition extends :: "heap \<Rightarrow> heap \<Rightarrow> bool" where
  "extends h h' = (length h \<le> length h' \<and> take (length h) h' = h)"

text \<open>
  \<open>keeps L h h'\<close>: the cells below \<open>L\<close> are the same in both heaps, and from \<open>L\<close> on the
  cells of \<open>h'\<close> refer to no cell below \<open>L\<close>.
\<close>

definition keeps :: "nat \<Rightarrow> heap \<Rightarrow> heap \<Rightarrow> bool" where
  "keeps L h h' = (length h' = length h \<and> take L h' = take L h \<and> region L h')"

subsection \<open>A value in the heap that is a tree\<close>

text \<open>
  \<open>tree h lo hi v j\<close>: in the heap \<open>h\<close> the value \<open>v\<close> is the document \<open>j\<close>, laid out without
  sharing in the cells from \<open>lo\<close> up to \<open>hi\<close> (excluded): an object or array is the last
  cell of its interval and its members lie before it, one after the other, each in an
  interval of its own. \<open>trees\<close> is the same for a list of values. This is how the parser
  lays a document out; an assignment of a string into a member keeps it so.
\<close>

inductive tree :: "heap \<Rightarrow> nat \<Rightarrow> nat \<Rightarrow> hval \<Rightarrow> json \<Rightarrow> bool"
  and trees :: "heap \<Rightarrow> nat \<Rightarrow> nat \<Rightarrow> hval list \<Rightarrow> json list \<Rightarrow> bool"
  for h :: heap where
  t_null: "lo \<le> hi \<Longrightarrow> tree h lo hi VNull JNull"
| t_bool: "lo \<le> hi \<Longrightarrow> tree h lo hi (VBool b) (JBool b)"
| t_num: "lo \<le> hi \<Longrightarrow> tree h lo hi (VNum (Num r)) (JNum (Num r))"
| t_str: "lo \<le> hi \<Longrightarrow> tree h lo hi (VStr s) (JStr s)"
| t_arr: "trees h lo a vs js \<Longrightarrow> a < length h \<Longrightarrow> h ! a = HArray vs \<Longrightarrow>
          tree h lo (Suc a) (VRef a) (JArr js)"
| t_obj: "trees h lo a vs (map snd ms) \<Longrightarrow> a < length h \<Longrightarrow>
          h ! a = HObject (zip (map fst ms) vs) \<Longrightarrow>
          tree h lo (Suc a) (VRef a) (JObj ms)"
| ts_nil: "lo \<le> hi \<Longrightarrow> trees h lo hi [] []"
| ts_cons: "tree h lo mid v j \<Longrightarrow> trees h mid hi vs js \<Longrightarrow> trees h lo hi (v # vs) (j # js)"

text \<open>\<open>sim lo hi h h'\<close>: the two heaps have the same cells outside the interval.\<close>

definition sim :: "nat \<Rightarrow> nat \<Rightarrow> heap \<Rightarrow> heap \<Rightarrow> bool" where
  "sim lo hi h h' = (length h' = length h \<and> (\<forall>a. a < lo \<or> hi \<le> a \<longrightarrow> h' ! a = h ! a))"

text \<open>What a caller sees of a result: the error thrown, or the value returned, serialised.\<close>

definition read_result :: "js_error + hval \<Rightarrow> heap \<Rightarrow> js_error + json" where
  "read_result r h = (case r of Inl e \<Rightarrow> Inl e | Inr u \<Rightarrow> stringify_val h [] u)"

section \<open>Example inputs\<close>

text \<open>\<^verbatim>\<open>path.join\<close> on a platform whose separator is the slash, for a plain file name.\<close>

definition posix_join :: "string \<Rightarrow> string \<Rightarrow> string" where
  "posix_join dir file = dir @ ''/'' @ file"

definition example_entries :: "(string \<times> (js_error + Stats)) list" where
  "example_entries =
     [(''old.glb'', Inr \<lparr>size_of = 11, mtime = 1000\<rparr>),
      (''notes.txt'', Inr \<lparr>size_of = 12, mtime = 4000\<rparr>),
      (''NEW.GLB'', Inr \<lparr>size_of = 13, mtime = 3000\<rparr>),
      (''mid.Glb'', Inr \<lparr>size_of = 14, mtime = 2000\<rparr>)]"

definition example_artifact :: "string \<Rightarrow> nat \<Rightarrow> int \<Rightarrow> Artifact" where
  "example_artifact f n t =
     \<lparr>name = f, path = posix_join MODEL_MESH_FOLDER f, url = ''/mesh/'' @ f,
      size_bytes = n, created = t, modified = t\<rparr>"

definition scenario_template :: json where
  "scenario_template =
     JObj [(''1'', JObj [(''class_type'', JStr ''LoadImage''),
                         (''inputs'', JObj [(''image'', JStr ''example.png'')])]),
           (''2'', JObj [(''class_type'', JStr ''SaveGLB''),
                         (''inputs'', JObj [(''mesh'', JArr [JStr ''1'', JNum (Num 0)]),
                                            (''filename_prefix'', JStr ''ComfyUI'')])])]"

definition ok_response :: Response where
  "ok_response =
     \<lparr>status = 200, statusText = ''OK'', text_body = Inr ''{}'', json_body = Inr (JObj [])\<rparr>"

definition refused :: js_error where
  "refused = FetchError ''connect ECONNREFUSED 127.0.0.1:8188''"

text \<open>Three stubbed transports: nothing answers; only the health probe answers; the
  job submission is answered with status 500.\<close>

definition transport_down :: transport where
  "transport_down calls req = Inl refused"

definition transport_post_down :: transport where
  "transport_post_down calls req = (if req_method req = GET then Inr ok_response else Inl refused)"


definition transport_unhealthy :: transport where
  "transport_unhealthy calls req =
     Inr \<lparr>status = 503, statusText = ''Service Unavailable'',
          text_body = Inr '''', json_body = Inl (SyntaxError ''Unexpected end of JSON input'')\<rparr>"

definition unhealthy :: "js_error + Response \<Rightarrow> bool" where
  "unhealthy probe = (case probe of Inl e \<Rightarrow> True | Inr r \<Rightarrow> \<not> ok r)"


definition patched_A :: json where
  "patched_A =
     JObj [(''1'', JObj [(''class_type'', JStr ''LoadImage''),
                         (''inputs'', JObj [(''image'', JStr ''webcam_input.jpg'')])]),
           (''2'', JObj [(''class_type'', JStr ''SaveGLB''),
                         (''inputs'', JObj [(''mesh'', JArr [JStr ''1'', JNum (Num 0)]),
                                            (''filename_prefix'', JStr ''mesh/webcam_3d_mesh'')])])]"

definition patched_B :: json where
  "patched_B =
     JObj [(''1'', JObj [(''class_type'', JStr ''LoadImage''),
                         (''inputs'', JObj [(''image'', JStr ''webcam_input.jpg'')])]),
           (''2'', JObj [(''class_type'', JStr ''SaveGLB''),
                         (''inputs'', JObj [(''mesh'', JArr [JStr ''1'', JNum (Num 0)]),
                                            (''filename_prefix'', JStr ''webcam_3d_mesh'')])])]"




text \<open>The scenario template as a heap: the template object is cell 5.\<close>

definition scenario_heap :: heap where
  "scenario_heap =
     [HObject [(''image'', VStr ''example.png'')],
      HObject [(''class_type'', VStr ''LoadImage''), (''inputs'', VRef 0)],
      HArray [VStr ''1'', VNum (Num 0)],
      HObject [(''mesh'', VRef 2), (''filename_prefix'', VStr ''ComfyUI'')],
      HObject [(''class_type'', VStr ''SaveGLB''), (''inputs'', VRef 3)],
      HObject [(''1'', VRef 1), (''2'', VRef 4)]]"






definition overflow_template :: json where
  "overflow_template =
     JObj [(''9'', JObj [(''class_type'', JStr ''SaveGLB''),
                         (''inputs'', JObj [(''filename_prefix'', JNum Infinity)])])]"

definition overflow_patched :: json where
  "overflow_patched =
     JObj [(''9'', JObj [(''class_type'', JStr ''SaveGLB''),
                         (''inputs'', JObj [(''filename_prefix'', JNull)])])]"
section \<open>The artifact index: properties\<close>

lemma insert_cmp_mset: "mset (insert_cmp cmp x ys) = add_mset x (mset ys)"
  by (induction ys) auto

lemma sort_cmp_mset: "mset (sort_cmp cmp xs) = mset xs"
  by (induction xs) (auto simp: insert_cmp_mset)

lemma insert_cmp_set: "set (insert_cmp cmp x ys) = insert x (set ys)"
  by (induction ys) auto

lemma insert_cmp_newest_first:
  "sorted_wrt (\<lambda>a b. created b \<le> created a) ys \<Longrightarrow>
   sorted_wrt (\<lambda>a b. created b \<le> created a) (insert_cmp (\<lambda>a b. created b - created a) x ys)"
  by (induction ys) (auto simp: insert_cmp_set)

lemma sort_cmp_newest_first:
  "sorted_wrt (\<lambda>a b. created b \<le> created a) (sort_cmp (\<lambda>a b. created b - created a) xs)"
  by (induction xs) (auto simp: insert_cmp_newest_first)

lemma three_newest_first:
  assumes m: "mset xs = {#a1, a2, a3#}"
    and s: "sorted_wrt (\<lambda>a b. created b \<le> created a) xs"
    and lt: "created a1 < created a2" "created a2 < created a3"
  shows "xs = [a3, a2, a1]"
proof -
  have "length xs = 3" using m by (metis size_mset size_add_mset size_empty numeral_3_eq_3)
  then obtain x y z where xs: "xs = [x, y, z]"
    by (auto simp: numeral_3_eq_3 length_Suc_conv)
  have *: "created y \<le> created x" "created z \<le> created x" "created z \<le> created y"
    using s xs by auto
  have "mset xs = mset [a1, a2, a3]" using m by simp
  then have "set xs = set [a1, a2, a3]" by (rule mset_eq_setD)
  then have "set xs = {a1, a2, a3}" by simp
  then have mem: "{x, y, z} = {a1, a2, a3}" using xs by simp
  have x: "x = a3"
  proof -
    have "a3 \<in> {x, y, z}" using mem by blast
    then have "created a3 \<le> created x" using * by auto
    moreover have "x \<in> {a1, a2, a3}" using mem by blast
    ultimately show ?thesis using lt by auto
  qed
  have z: "z = a1"
  proof -
    have "a1 \<in> {x, y, z}" using mem by blast
    then have "created z \<le> created a1" using * by auto
    moreover have "z \<in> {a1, a2, a3}" using mem by blast
    ultimately show ?thesis using lt by auto
  qed
  have y: "y = a2"
  proof -
    have "a2 \<in> {x, y, z}" using mem by blast
    then show ?thesis using x z lt by auto
  qed
  from x y z have "x = a3 \<and> y = a2 \<and> z = a1" by simp
  then show ?thesis using xs by simp
qed

text \<open>
  Claim C6. When every matching entry can be examined, \<open>findGLBFiles\<close> returns exactly the
  artifacts of the entries whose lower-cased name ends in \<^verbatim>\<open>.glb\<close>, newest first; in
  particular three such files with modification times \<open>t1 < t2 < t3\<close>, in whatever order
  the directory lists them, come back in the order \<open>t3\<close>, \<open>t2\<close>, \<open>t1\<close>.
\<close>

theorem C6_newest_first:
  assumes "map_throwing (to_artifact path_join) (filter (\<lambda>entry. isGLB (fst entry)) entries) = Inr files"
  shows "sorted_wrt (\<lambda>a b. created b \<le> created a) (findGLBFiles path_join (Dir entries))
       \<and> mset (findGLBFiles path_join (Dir entries)) = mset files
       \<and> (\<forall>a1 a2 a3. mset files = {#a1, a2, a3#} \<and> created a1 < created a2 \<and> created a2 < created a3
            \<longrightarrow> findGLBFiles path_join (Dir entries) = [a3, a2, a1])"
proof -
  have r: "findGLBFiles path_join (Dir entries) = sort_cmp (\<lambda>a b. created b - created a) files"
    using assms by (simp add: findGLBFiles_def)
  show ?thesis
    unfolding r
    using three_newest_first [OF _ sort_cmp_newest_first]
    by (auto simp: sort_cmp_newest_first sort_cmp_mset)
qed

lemma isGLB_examples:
  "isGLB ''old.glb''" "\<not> isGLB ''notes.txt''" "isGLB ''NEW.GLB''" "isGLB ''mid.Glb''"
  by code_simp+

lemma example_files:
  "map_throwing (to_artifact posix_join) (filter (\<lambda>entry. isGLB (fst entry)) example_entries)
     = Inr [example_artifact ''old.glb'' 11 1000, example_artifact ''NEW.GLB'' 13 3000,
            example_artifact ''mid.Glb'' 14 2000]"
  by (simp add: example_entries_def isGLB_examples to_artifact_def example_artifact_def)

text \<open>
  A directory listed as \<^verbatim>\<open>old.glb\<close> (oldest), \<^verbatim>\<open>notes.txt\<close>, \<^verbatim>\<open>NEW.GLB\<close> (newest),
  \<^verbatim>\<open>mid.Glb\<close>: the text file is dropped, the upper-case names are kept.
\<close>

theorem C6_witness:
  "map_throwing (to_artifact posix_join) (filter (\<lambda>entry. isGLB (fst entry)) example_entries)
     = Inr [example_artifact ''old.glb'' 11 1000, example_artifact ''NEW.GLB'' 13 3000,
            example_artifact ''mid.Glb'' 14 2000]
   \<and> findGLBFiles posix_join (Dir example_entries)
     = [example_artifact ''NEW.GLB'' 13 3000, example_artifact ''mid.Glb'' 14 2000,
        example_artifact ''old.glb'' 11 1000]"
proof -
  have "mset [example_artifact ''old.glb'' 11 1000, example_artifact ''NEW.GLB'' 13 3000,
            example_artifact ''mid.Glb'' 14 2000]
        = {#example_artifact ''old.glb'' 11 1000, example_artifact ''mid.Glb'' 14 2000,
            example_artifact ''NEW.GLB'' 13 3000#}"
    by simp
  moreover have "created (example_artifact ''old.glb'' 11 1000) < created (example_artifact ''mid.Glb'' 14 2000)"
    "created (example_artifact ''mid.Glb'' 14 2000) < created (example_artifact ''NEW.GLB'' 13 3000)"
    by (simp_all add: example_artifact_def)
  ultimately show ?thesis
    using C6_newest_first [OF example_files] example_files by blast
qed

text \<open>
  Claim C7. \<open>findGLBFiles\<close> returns a list in every case: the empty list when the folder
  does not exist and when no entry matches the extension. \<open>findLatestGLBFile\<close> is absent
  exactly when that list is empty, and is its first element otherwise.
\<close>

theorem C7_empty_directory_safety:
  "findGLBFiles path_join Missing = []
   \<and> ((\<forall>entry \<in> set entries. \<not> isGLB (fst entry)) \<longrightarrow> findGLBFiles path_join (Dir entries) = [])
   \<and> (findLatestGLBFile path_join d = None \<longleftrightarrow> findGLBFiles path_join d = [])
   \<and> (findGLBFiles path_join d \<noteq> [] \<longrightarrow>
        findLatestGLBFile path_join d = Some (hd (findGLBFiles path_join d)))"
proof -
  have "(\<forall>entry \<in> set entries. \<not> isGLB (fst entry)) \<Longrightarrow> filter (\<lambda>entry. isGLB (fst entry)) entries = []"
    by (simp add: filter_empty_conv)
  then show ?thesis
    by (auto simp: findGLBFiles_def findLatestGLBFile_def Let_def hd_conv_nth)
qed

theorem C7_witness:
  "\<not> isGLB ''notes.txt''
   \<and> findGLBFiles posix_join (Dir [(''notes.txt'', Inr \<lparr>size_of = 12, mtime = 4000\<rparr>)]) = []
   \<and> findLatestGLBFile posix_join (Dir [(''notes.txt'', Inr \<lparr>size_of = 12, mtime = 4000\<rparr>)]) = None
   \<and> findGLBFiles posix_join (Dir [(''old.glb'', Inr \<lparr>size_of = 11, mtime = 1000\<rparr>)]) \<noteq> []
   \<and> findLatestGLBFile posix_join (Dir [(''old.glb'', Inr \<lparr>size_of = 11, mtime = 1000\<rparr>)])
       = Some (example_artifact ''old.glb'' 11 1000)"
proof -
  have a: "\<forall>entry \<in> set [(''notes.txt'', Inr \<lparr>size_of = 12, mtime = 4000\<rparr>)]. \<not> isGLB (fst entry)"
    by (simp add: isGLB_examples)
  have b: "findGLBFiles posix_join (Dir [(''old.glb'', Inr \<lparr>size_of = 11, mtime = 1000\<rparr>)])
            = [example_artifact ''old.glb'' 11 1000]"
    by (simp add: findGLBFiles_def isGLB_examples to_artifact_def example_artifact_def)
  show ?thesis
    using a b isGLB_examples(2)
      C7_empty_directory_safety [of posix_join "[(''notes.txt'', Inr \<lparr>size_of = 12, mtime = 4000\<rparr>)]"
        "Dir [(''notes.txt'', Inr \<lparr>size_of = 12, mtime = 4000\<rparr>)]"]
      C7_empty_directory_safety [of posix_join "[]"
        "Dir [(''old.glb'', Inr \<lparr>size_of = 11, mtime = 1000\<rparr>)]"]
    by simp
qed

section \<open>The scenario template, evaluated\<close>

lemma scenario_A:
  "updateWorkflowWithImage_A scenario_template ''webcam_input.jpg'' =
     Inr (JObj [(''1'', JObj [(''class_type'', JStr ''LoadImage''),
                         (''inputs'', JObj [(''image'', JStr ''webcam_input.jpg'')])]),
           (''2'', JObj [(''class_type'', JStr ''SaveGLB''),
                         (''inputs'', JObj [(''mesh'', JArr [JStr ''1'', JNum (Num 0)]),
                                            (''filename_prefix'', JStr ''mesh/webcam_3d_mesh'')])])])"
  by code_simp

lemma scenario_B:
  "updateWorkflowWithImage_B scenario_template ''webcam_input.jpg'' =
     Inr (JObj [(''1'', JObj [(''class_type'', JStr ''LoadImage''),
                         (''inputs'', JObj [(''image'', JStr ''webcam_input.jpg'')])]),
           (''2'', JObj [(''class_type'', JStr ''SaveGLB''),
                         (''inputs'', JObj [(''mesh'', JArr [JStr ''1'', JNum (Num 0)]),
                                            (''filename_prefix'', JStr ''webcam_3d_mesh'')])])])"
  by code_simp

section \<open>The capture route: properties\<close>

text \<open>
  Claim C8. With the empty template \<^verbatim>\<open>{}\<close> no request registers a timer, whatever the
  body and whether or not the write fails. A request carrying a non-empty string as
  \<^verbatim>\<open>imageData\<close>, whose write succeeds, is answered with the success payload, in which
  \<^verbatim>\<open>comfyui_enabled\<close> is false, and the frame is written: both servers.
\<close>

theorem C8_empty_template:
  "timers (save_frame_A path_join write_error (JObj []) body) = []
   \<and> timers (save_frame_B path_join write_error (JObj []) body) = []
   \<and> (get_prop b ''imageData'' = Some (JStr s) \<and> s \<noteq> [] \<longrightarrow>
        save_frame_A path_join None (JObj []) (Some b) =
          \<lparr>res_status = 200,
           res_body = JObj
             [(''success'', JBool True),
              (''message'', JStr (''Frame saved to '' @ path_join COMFYUI_INPUT_FOLDER_A INPUT_FILENAME)),
              (''filename'', JStr INPUT_FILENAME),
              (''path'', JStr (path_join COMFYUI_INPUT_FOLDER_A INPUT_FILENAME)),
              (''comfyui_enabled'', JBool False),
              (''delay_seconds'', JNum (Num 5)),
              (''overwrite_mode'', JBool True)],
           written = [(path_join COMFYUI_INPUT_FOLDER_A INPUT_FILENAME, strip_data_prefix s)],
           timers = []\<rparr>
        \<and> save_frame_B path_join None (JObj []) (Some b) =
          \<lparr>res_status = 200,
           res_body = JObj
             [(''success'', JBool True),
              (''message'', JStr (''Frame saved to '' @ path_join COMFYUI_INPUT_FOLDER_B INPUT_FILENAME)),
              (''filename'', JStr INPUT_FILENAME),
              (''path'', JStr (path_join COMFYUI_INPUT_FOLDER_B INPUT_FILENAME)),
              (''comfyui_enabled'', JBool False),
              (''delay_seconds'', JNum (Num 5)),
              (''mesh_folder'', JStr MODEL_MESH_FOLDER)],
           written = [(path_join COMFYUI_INPUT_FOLDER_B INPUT_FILENAME, strip_data_prefix s)],
           timers = []\<rparr>)"
proof -
  have t: "timers (save_frame folder extra path_join write_error (JObj []) body) = []"
    for folder extra
    by (simp add: save_frame_def failed_to_save_def Let_def
        split: option.splits json.splits)
  have s: "get_prop b ''imageData'' = Some (JStr s) \<Longrightarrow> s \<noteq> [] \<Longrightarrow>
         save_frame folder extra path_join None (JObj []) (Some b) =
          \<lparr>res_status = 200,
           res_body = JObj
             [(''success'', JBool True),
              (''message'', JStr (''Frame saved to '' @ path_join folder INPUT_FILENAME)),
              (''filename'', JStr INPUT_FILENAME),
              (''path'', JStr (path_join folder INPUT_FILENAME)),
              (''comfyui_enabled'', JBool False),
              (''delay_seconds'', JNum (Num 5)),
              extra],
           written = [(path_join folder INPUT_FILENAME, strip_data_prefix s)],
           timers = []\<rparr>" for folder extra
    by (cases b) (simp_all add: save_frame_def Let_def PROMPT_DELAY_SECONDS_def)
  show ?thesis
    using t s by (simp add: save_frame_A_def save_frame_B_def)
qed

text \<open>A JPEG data URL posted to the first server while no template is loaded.\<close>

theorem C8_witness:
  "get_prop (JObj [(''imageData'', JStr ''data:image/jpeg;base64,/9j/4AAQ'')]) ''imageData''
     = Some (JStr ''data:image/jpeg;base64,/9j/4AAQ'')
   \<and> written (save_frame_A posix_join None (JObj [])
                 (Some (JObj [(''imageData'', JStr ''data:image/jpeg;base64,/9j/4AAQ'')])))
       = [(posix_join COMFYUI_INPUT_FOLDER_A ''webcam_input.jpg'', ''/9j/4AAQ'')]
   \<and> get_prop (res_body (save_frame_A posix_join None (JObj [])
                 (Some (JObj [(''imageData'', JStr ''data:image/jpeg;base64,/9j/4AAQ'')]))))
         ''comfyui_enabled'' = Some (JBool False)
   \<and> timers (save_frame_A posix_join None (JObj [])
                 (Some (JObj [(''imageData'', JStr ''data:image/jpeg;base64,/9j/4AAQ'')]))) = []"
proof -
  have g: "get_prop (JObj [(''imageData'', JStr ''data:image/jpeg;base64,/9j/4AAQ'')]) ''imageData''
     = Some (JStr ''data:image/jpeg;base64,/9j/4AAQ'')"
    by simp
  have p: "strip_data_prefix ''data:image/jpeg;base64,/9j/4AAQ'' = ''/9j/4AAQ''"
    by (simp add: strip_data_prefix_def)
  show ?thesis
    using g p
      C8_empty_template [of posix_join None "Some JNull"
        "JObj [(''imageData'', JStr ''data:image/jpeg;base64,/9j/4AAQ'')]"
        "''data:image/jpeg;base64,/9j/4AAQ''"]
    by (simp add: INPUT_FILENAME_def)
qed

section \<open>The compute client: properties\<close>


lemma ok_examples: "ok ok_response"
  by (simp add: ok_def ok_response_def)

text \<open>
  Claim C2, as amended. When the health probe is rejected by the transport or answered
  with a status outside 200 to 299, \<open>queueComfyUIPrompt\<close> returns \<^verbatim>\<open>success: false\<close> with
  one error message (the transport error's own message, respectively the fixed message of
  the health check) and the only request made is the \<^verbatim>\<open>GET\<close> of the probe: no \<^verbatim>\<open>POST\<close>.
  The result has no field for a kind of error.
\<close>

theorem C2_health_gate:
  "(unhealthy (tr calls health_request_A) \<longrightarrow>
      queueComfyUIPrompt_A tr now workflow filename calls =
        (\<lparr>success = False, prompt_id = None, number = None,
          error = Some (case tr calls health_request_A of
                          Inl e \<Rightarrow> message e
                        | Inr r \<Rightarrow> ''ComfyUI server not responding'')\<rparr>,
         calls @ [health_request_A]))
   \<and> (unhealthy (tr calls health_request_B) \<longrightarrow>
      queueComfyUIPrompt_B tr now workflow filename calls =
        (\<lparr>success = False, prompt_id = None, number = None,
          error = Some (case tr calls health_request_B of
                          Inl e \<Rightarrow> message e
                        | Inr r \<Rightarrow> ''ComfyUI server returned status: '' @ show_nat (status r))\<rparr>,
         calls @ [health_request_B]))
   \<and> req_method health_request_A = GET \<and> req_method health_request_B = GET"
  by (auto simp: unhealthy_def queueComfyUIPrompt_A_def queueComfyUIPrompt_B_def fetch_def
      caught_def health_request_A_def health_request_B_def split: sum.splits)

text \<open>A probe answered with status 503, and a probe the transport refuses.\<close>

theorem C2_witness:
  "unhealthy (transport_unhealthy [] health_request_A)
   \<and> unhealthy (transport_down [] health_request_B)
   \<and> queueComfyUIPrompt_A transport_unhealthy 1700000000000 scenario_template INPUT_FILENAME [] =
        (\<lparr>success = False, prompt_id = None, number = None,
          error = Some ''ComfyUI server not responding''\<rparr>, [health_request_A])
   \<and> queueComfyUIPrompt_B transport_down 1700000000000 scenario_template INPUT_FILENAME [] =
        (\<lparr>success = False, prompt_id = None, number = None,
          error = Some ''connect ECONNREFUSED 127.0.0.1:8188''\<rparr>, [health_request_B])"
proof -
  have a: "unhealthy (transport_unhealthy [] health_request_A)"
    by (simp add: unhealthy_def transport_unhealthy_def ok_def)
  have b: "unhealthy (transport_down [] health_request_B)"
    by (simp add: unhealthy_def transport_down_def)
  show ?thesis
    using a b
      C2_health_gate [of transport_unhealthy "[]" 1700000000000 scenario_template INPUT_FILENAME]
      C2_health_gate [of transport_down "[]" 1700000000000 scenario_template INPUT_FILENAME]
    by (simp add: transport_unhealthy_def transport_down_def refused_def)
qed

text \<open>
  Claim C2 as stated asks for an error kind \<^verbatim>\<open>ServiceUnavailable\<close>. The result of a refused
  health probe is the record below, and it is the very result returned when the probe
  succeeds and the later \<^verbatim>\<open>POST\<close> is refused (the case the specification calls
  \<^verbatim>\<open>Unreachable\<close>): the returned value tells the two apart by nothing.
\<close>

theorem C2_counterexample:
  "fst (queueComfyUIPrompt_A transport_down 1700000000000 scenario_template ''webcam_input.jpg'' []) =
      \<lparr>success = False, prompt_id = None, number = None,
       error = Some ''connect ECONNREFUSED 127.0.0.1:8188''\<rparr>
   \<and> fst (queueComfyUIPrompt_A transport_post_down 1700000000000 scenario_template ''webcam_input.jpg'' []) =
      \<lparr>success = False, prompt_id = None, number = None,
       error = Some ''connect ECONNREFUSED 127.0.0.1:8188''\<rparr>
   \<and> snd (queueComfyUIPrompt_A transport_down 1700000000000 scenario_template ''webcam_input.jpg'' []) =
      [health_request_A]
   \<and> map req_method
        (snd (queueComfyUIPrompt_A transport_post_down 1700000000000 scenario_template ''webcam_input.jpg'' [])) =
      [GET, POST]"
  by (simp add: queueComfyUIPrompt_A_def fetch_def transport_down_def transport_post_down_def
      caught_def refused_def health_request_A_def prompt_request_A_def ok_examples scenario_A)






section \<open>The patcher: lemmas\<close>

lemma insert_own_append:
  "\<forall>k' \<in> set (map fst acc). \<not> key_before k k' \<Longrightarrow> insert_own acc k v = acc @ [(k, v)]"
  by (induction acc) auto

lemma build_object_aux:
  "canon_keys (map fst (acc @ ms)) \<Longrightarrow>
   foldl (\<lambda>acc kv. define_own acc (fst kv) (snd kv)) acc ms = acc @ ms"
proof (induction ms arbitrary: acc)
  case Nil
  then show ?case by simp
next
  case (Cons kv ms)
  have notin: "fst kv \<notin> set (map fst acc)"
    using Cons.prems by (auto simp: canon_keys_def)
  have before: "\<forall>k' \<in> set (map fst acc). \<not> key_before (fst kv) k'"
    using Cons.prems by (auto simp: canon_keys_def sorted_wrt_append)
  have step: "define_own acc (fst kv) (snd kv) = acc @ [kv]"
    using notin insert_own_append [OF before, of "snd kv"] by (simp add: define_own_def)
  have "canon_keys (map fst ((acc @ [kv]) @ ms))"
    using Cons.prems by simp
  from Cons.IH [OF this] step show ?case by simp
qed

lemma build_object_canon: "canon_keys (map fst ms) \<Longrightarrow> build_object ms = ms"
  using build_object_aux [of "[]" ms] by (simp add: build_object_def)

lemma keys_map_prod: "map fst (map (map_prod id f) ms) = map fst ms"
  by (induction ms) auto

lemma deep_clone_members:
  "canon_keys (map fst ms) \<Longrightarrow> deep_clone (JObj ms) = JObj (map (map_prod id deep_clone) ms)"
  by (simp add: build_object_canon keys_map_prod)

lemma deep_clone_canonical: "canonical v \<Longrightarrow> plain v \<Longrightarrow> deep_clone v = v"
proof (induction v)
  case (JNum n)
  then show ?case by (cases n) simp_all
next
  case (JArr xs)
  then show ?case by (simp add: map_idI)
next
  case (JObj ms)
  have "map (map_prod id deep_clone) ms = ms"
  proof (rule map_idI)
    fix kv assume a: "kv \<in> set ms"
    then have "canonical (snd kv)" "plain (snd kv)" using JObj.prems by simp_all
    moreover have "snd kv \<in> Basic_BNFs.snds kv" by (cases kv) simp
    ultimately have "deep_clone (snd kv) = snd kv" using JObj.IH a by blast
    then show "map_prod id deep_clone kv = kv" by (cases kv) simp
  qed
  then show ?case using JObj.prems by (simp add: build_object_canon)
qed simp_all

text \<open>What the clone keeps of a value as \<^verbatim>\<open>JSON.parse\<close> builds it.\<close>

lemma nodes_deep_clone:
  assumes "canonical T"
  shows "nodes (deep_clone T) = map deep_clone (nodes T)" "node_ids (deep_clone T) = node_ids T"
proof -
  show "nodes (deep_clone T) = map deep_clone (nodes T)"
  proof (cases T)
    case (JObj ms)
    then show ?thesis using assms by (simp add: deep_clone_members del: deep_clone.simps)
  next
    case (JNum n)
    then show ?thesis by (cases n) simp_all
  qed simp_all
  show "node_ids (deep_clone T) = node_ids T"
  proof (cases T)
    case (JObj ms)
    then show ?thesis
      using assms by (simp add: deep_clone_members keys_map_prod del: deep_clone.simps)
  next
    case (JNum n)
    then show ?thesis by (cases n) simp_all
  qed simp_all
qed

lemma canonical_deep_clone: "canonical v \<Longrightarrow> canonical (deep_clone v)"
proof (induction v)
  case (JNum n)
  then show ?case by (cases n) simp_all
next
  case (JObj ms)
  have k: "canon_keys (map fst ms)" using JObj.prems by simp
  have "canonical (snd kv)" if "kv \<in> set (map (map_prod id deep_clone) ms)" for kv
  proof -
    from that obtain m where m: "m \<in> set ms" "kv = map_prod id deep_clone m" by auto
    then have "canonical (snd m)" using JObj.prems by simp
    moreover have "snd m \<in> Basic_BNFs.snds m" by (cases m) simp
    ultimately have "canonical (deep_clone (snd m))" using JObj.IH m(1) by blast
    then show ?thesis using m(2) by (cases m) simp
  qed
  then show ?case
    using k by (simp add: deep_clone_members keys_map_prod del: deep_clone.simps)
qed simp_all

lemma map_of_map_prod: "map_of (map (map_prod id f) ms) k = map_option f (map_of ms k)"
  by (induction ms) auto

lemma get_prop_deep_clone:
  assumes "canonical n"
  shows "get_prop (deep_clone n) k = map_option deep_clone (get_prop n k)"
proof (cases n)
  case (JObj ms)
  then show ?thesis
    using assms by (simp add: deep_clone_members map_of_map_prod del: deep_clone.simps)
next
  case (JNum x)
  then show ?thesis by (cases x) simp_all
qed simp_all

lemma deep_clone_string: "(deep_clone v = JStr s) = (v = JStr s)"
proof (cases v)
  case (JNum n)
  then show ?thesis by (cases n) simp_all
qed simp_all

lemma truthy_deep_clone:
  "truthy (deep_clone v) = (truthy v \<and> v \<noteq> JNum Infinity \<and> v \<noteq> JNum NegInfinity)"
proof (cases v)
  case (JNum n)
  then show ?thesis by (cases n) simp_all
qed simp_all

lemma canonical_member: "canonical n \<Longrightarrow> get_prop n k = Some x \<Longrightarrow> canonical x"
  by (cases n) (auto dest!: map_of_SomeD)

lemma class_is_deep_clone: "canonical n \<Longrightarrow> class_is (deep_clone n) c = class_is n c"
  by (cases "get_prop n ''class_type''")
    (simp_all add: class_is_def get_prop_deep_clone deep_clone_string)




subsection \<open>Property writes\<close>

lemma map_of_replace_own:
  "map_of (replace_own ms k v) k' = (if k' = k \<and> map_of ms k \<noteq> None then Some v else map_of ms k')"
  by (induction ms) auto

lemma keys_replace_own: "map fst (replace_own ms k v) = map fst ms"
  by (induction ms) auto

lemma map_of_define_own_present:
  "map_of ms k = Some old \<Longrightarrow> map_of (define_own ms k v) k' = (if k' = k then Some v else map_of ms k')"
proof -
  assume a: "map_of ms k = Some old"
  then have "k \<in> set (map fst ms)"
    by (metis map_of_eq_None_iff option.distinct(1) set_map)
  then show ?thesis using a by (simp add: define_own_def map_of_replace_own)
qed

lemma get_prop_Some_obj: "get_prop n k = Some v \<Longrightarrow> \<exists>ms. n = JObj ms \<and> map_of ms k = Some v"
  by (cases n) auto

lemma get_prop_set_prop:
  "get_prop n k = Some old \<Longrightarrow> get_prop (set_prop n k v) k' = (if k' = k then Some v else get_prop n k')"
  by (cases n) (auto simp: map_of_define_own_present)

lemma has_truthy_input_iff:
  "has_truthy_input n k \<longleftrightarrow>
     (\<exists>ms v. get_prop n ''inputs'' = Some (JObj ms) \<and> map_of ms k = Some v \<and> truthy v)"
  by (auto simp: has_truthy_input_def split: option.splits dest!: get_prop_Some_obj)

lemma class_is_set_input: "class_is (set_input n k v) c = class_is n c"
  by (auto simp: class_is_def set_input_def get_prop_set_prop split: option.splits)

lemma input_of_set_input:
  "has_truthy_input n k \<Longrightarrow> input_of (set_input n k v) k = Some v"
  by (auto simp: has_truthy_input_iff set_input_def input_of_def get_prop_set_prop
      map_of_define_own_present)

lemma class_is_exclusive: "class_is n c \<Longrightarrow> class_is n c' \<Longrightarrow> c = c'"
  by (simp add: class_is_def)



lemma not_class:
  "class_is n c \<Longrightarrow> c' \<noteq> c \<Longrightarrow> \<not> class_is n c'"
  by (auto dest: class_is_exclusive)



lemma patch_node_A_falsy:
  assumes "n \<noteq> JNull" "\<not> has_truthy_input n (target_key n)"
  shows "patch_node_A A n = Inr n"
proof (cases "class_is n ''SaveImage'' \<or> class_is n ''SaveGLB''")
  case True
  then have k: "\<not> has_truthy_input n ''filename_prefix''"
    using assms(2) by (simp add: target_key_def)
  from True have "\<not> class_is n ''LoadImage''" "\<not> class_is n ''LoadImageMask''"
    "\<not> class_is n ''ImageInput''"
    by (auto dest: class_is_exclusive)
  then show ?thesis using assms(1) k by (simp add: patch_node_A_def Let_def)
next
  case False
  then have k: "\<not> has_truthy_input n ''image''"
    using assms(2) by (simp add: target_key_def)
  then show ?thesis using assms(1) False by (simp add: patch_node_A_def Let_def)
qed

lemma patch_node_B_falsy:
  assumes "n \<noteq> JNull" "\<not> has_truthy_input n (target_key n)"
  shows "patch_node_B A n = Inr n"
proof (cases "class_is n ''SaveImage'' \<or> class_is n ''SaveGLB''")
  case True
  then have k: "\<not> has_truthy_input n ''filename_prefix''"
    using assms(2) by (simp add: target_key_def)
  from True have "\<not> class_is n ''LoadImage''" "\<not> class_is n ''LoadImageMask''"
    "\<not> class_is n ''ImageInput''"
    by (auto dest: class_is_exclusive)
  then show ?thesis using assms(1) k by (simp add: patch_node_B_def Let_def)
next
  case False
  then have k: "\<not> has_truthy_input n ''image''"
    using assms(2) by (simp add: target_key_def)
  then show ?thesis using assms(1) False by (simp add: patch_node_B_def Let_def)
qed

lemma class_not_null: "class_is n c \<Longrightarrow> n \<noteq> JNull"
  by (auto simp: class_is_def)

lemma patch_node_A_image:
  assumes c: "class_is n ''LoadImage'' \<or> class_is n ''LoadImageMask'' \<or> class_is n ''ImageInput''"
    and t: "has_truthy_input n ''image''"
  shows "patch_node_A A n = Inr (set_input n ''image'' (JStr A))"
proof -
  have nn: "n \<noteq> JNull" using c by (auto dest: class_not_null)
  have s: "\<not> class_is n ''SaveImage''" "\<not> class_is n ''SaveGLB''"
    using c by (auto dest: class_is_exclusive)
  show ?thesis
  proof (cases "class_is n ''LoadImage''")
    case True
    then have "\<not> class_is n ''LoadImageMask''" "\<not> class_is n ''ImageInput''"
      by (auto dest: class_is_exclusive)
    then show ?thesis
      using nn s t True by (simp add: patch_node_A_def Let_def class_is_set_input)
  next
    case False
    then show ?thesis
      using nn s t c by (simp add: patch_node_A_def Let_def class_is_set_input)
  qed
qed

lemma patch_node_B_image:
  assumes c: "class_is n ''LoadImage'' \<or> class_is n ''LoadImageMask'' \<or> class_is n ''ImageInput''"
    and t: "has_truthy_input n ''image''"
  shows "patch_node_B A n = Inr (set_input n ''image'' (JStr A))"
proof -
  have nn: "n \<noteq> JNull" using c by (auto dest: class_not_null)
  have s: "\<not> class_is n ''SaveGLB''"
    using c by (auto dest: class_is_exclusive)
  show ?thesis
  proof (cases "class_is n ''LoadImage''")
    case True
    then have "\<not> class_is n ''LoadImageMask''" "\<not> class_is n ''ImageInput''"
      by (auto dest: class_is_exclusive)
    then show ?thesis
      using nn s t True by (simp add: patch_node_B_def Let_def class_is_set_input)
  next
    case False
    then show ?thesis
      using nn s t c by (simp add: patch_node_B_def Let_def class_is_set_input)
  qed
qed

lemma patch_node_A_mesh:
  assumes c: "class_is n ''SaveGLB''" and t: "has_truthy_input n ''filename_prefix''"
  shows "patch_node_A A n = Inr (set_input n ''filename_prefix'' (JStr ''mesh/webcam_3d_mesh''))"
proof -
  have nn: "n \<noteq> JNull" using c by (rule class_not_null)
  have s: "\<not> class_is n ''LoadImage''" "\<not> class_is n ''SaveImage''"
    "\<not> class_is n ''LoadImageMask''" "\<not> class_is n ''ImageInput''"
    using c by (auto dest: class_is_exclusive)
  show ?thesis
    using nn s c t
    by (simp add: patch_node_A_def Let_def class_is_set_input MESH_FOLDER_def OUTPUT_PREFIX_def)
qed

lemma patch_node_B_mesh:
  assumes c: "class_is n ''SaveGLB''" and t: "has_truthy_input n ''filename_prefix''"
  shows "patch_node_B A n = Inr (set_input n ''filename_prefix'' (JStr ''webcam_3d_mesh''))"
proof -
  have nn: "n \<noteq> JNull" using c by (rule class_not_null)
  have s: "\<not> class_is n ''LoadImage''"
    "\<not> class_is n ''LoadImageMask''" "\<not> class_is n ''ImageInput''"
    using c by (auto dest: class_is_exclusive)
  show ?thesis
    using nn s c t
    by (simp add: patch_node_B_def Let_def class_is_set_input OUTPUT_PREFIX_def)
qed

lemma for_in_nth:
  "for_in body xs = Inr ys \<Longrightarrow>
   length ys = length xs \<and> (\<forall>i < length xs. body (xs ! i) = Inr (ys ! i))"
proof (induction xs arbitrary: ys)
  case Nil
  then show ?case by simp
next
  case (Cons x xs)
  then show ?case
    by (auto split: sum.splits simp: nth_Cons split: nat.splits)
qed

lemma for_in_members:
  "for_in (on_member body) ms = Inr ms' \<Longrightarrow>
   map fst ms' = map fst ms \<and> for_in body (map snd ms) = Inr (map snd ms')"
proof (induction ms arbitrary: ms')
  case Nil
  then show ?case by simp
next
  case (Cons kv ms)
  then show ?case
    by (auto simp: on_member_def split: sum.splits)
qed

lemma update_nodes_nth:
  assumes "update_nodes body T = Inr T'"
  shows "node_ids T' = node_ids T \<and> length (nodes T') = length (nodes T)
       \<and> (\<forall>i < length (nodes T). body (nodes T ! i) = Inr (nodes T' ! i))
       \<and> (nodes T = [] \<longrightarrow> T' = T)"
proof (cases T)
  case (JObj ms)
  then obtain ms' where m: "for_in (on_member body) ms = Inr ms'" and T': "T' = JObj ms'"
    using assms by (auto split: sum.splits)
  from for_in_members [OF m] for_in_nth [of body "map snd ms" "map snd ms'"]
  show ?thesis using JObj T' by auto
next
  case (JArr xs)
  then obtain xs' where m: "for_in body xs = Inr xs'" and T': "T' = JArr xs'"
    using assms by (auto split: sum.splits)
  from for_in_nth [OF m] show ?thesis using JArr T' by auto
qed (use assms in auto)


subsection \<open>The loop over the clone\<close>

lemma canonical_nodes: "canonical T \<Longrightarrow> i < length (nodes T) \<Longrightarrow> canonical (nodes T ! i)"
  by (cases T) auto

lemma update_clone_nth:
  assumes "canonical T" and "update_nodes body (deep_clone T) = Inr T'"
  shows "node_ids T' = node_ids T \<and> length (nodes T') = length (nodes T)
       \<and> (\<forall>i < length (nodes T). body (deep_clone (nodes T ! i)) = Inr (nodes T' ! i))
       \<and> (nodes T = [] \<longrightarrow> T' = deep_clone T)"
  using update_nodes_nth [OF assms(2)] nodes_deep_clone [OF assms(1)] by simp

lemma input_of_deep_clone:
  assumes "canonical n"
  shows "input_of (deep_clone n) k = map_option deep_clone (input_of n k)"
proof (cases "get_prop n ''inputs''")
  case None
  then show ?thesis by (simp add: input_of_def get_prop_deep_clone [OF assms])
next
  case (Some i)
  then have "canonical i" using assms by (rule canonical_member [rotated])
  then show ?thesis
    using Some by (simp add: input_of_def get_prop_deep_clone [OF assms] get_prop_deep_clone)
qed

lemma has_truthy_input_of:
  "has_truthy_input n k \<longleftrightarrow> (\<exists>v. input_of n k = Some v \<and> truthy v)"
  by (auto simp: has_truthy_input_def input_of_def split: option.splits
      dest!: get_prop_Some_obj)

lemma has_truthy_input_deep_clone:
  assumes "canonical n"
  shows "has_truthy_input (deep_clone n) k \<longleftrightarrow>
           (\<exists>v. input_of n k = Some v \<and> truthy v
                \<and> v \<noteq> JNum Infinity \<and> v \<noteq> JNum NegInfinity)"
  by (auto simp: has_truthy_input_of input_of_deep_clone [OF assms] truthy_deep_clone)









section \<open>The patcher: properties\<close>



text \<open>
  Claim C1, as amended. For a \<^verbatim>\<open>SaveGLB\<close> node whose \<^verbatim>\<open>filename_prefix\<close> is truthy and not an
  infinity the server of \<^verbatim>\<open>src/app.js\<close> sets that input to \<^verbatim>\<open>mesh/webcam_3d_mesh\<close>, the
  server of \<^verbatim>\<open>src/unnamed/part_000\<close> sets it to \<^verbatim>\<open>webcam_3d_mesh\<close>; both set the \<^verbatim>\<open>image\<close>
  input of an image node to the asset name when it is truthy and not an infinity. An
  infinity is truthy in the template, but the guard is tested on the clone, which holds
  \<^verbatim>\<open>null\<close> for it: the input is \<^verbatim>\<open>null\<close> in the result. The statement is about the calls
  that return: the call throws a \<^verbatim>\<open>TypeError\<close> when an entry of the clone is \<^verbatim>\<open>null\<close>.
\<close>

theorem C1_mesh_prefix:
  assumes "canonical T" and "i < length (nodes T)"
  shows "(updateWorkflowWithImage_A T A = Inr T' \<and> class_is (nodes T ! i) ''SaveGLB''
            \<and> input_of (nodes T ! i) ''filename_prefix'' = Some v \<and> truthy v
            \<and> v \<noteq> JNum Infinity \<and> v \<noteq> JNum NegInfinity \<longrightarrow>
            input_of (nodes T' ! i) ''filename_prefix'' = Some (JStr ''mesh/webcam_3d_mesh''))
       \<and> (updateWorkflowWithImage_B T A = Inr T' \<and> class_is (nodes T ! i) ''SaveGLB''
            \<and> input_of (nodes T ! i) ''filename_prefix'' = Some v \<and> truthy v
            \<and> v \<noteq> JNum Infinity \<and> v \<noteq> JNum NegInfinity \<longrightarrow>
            input_of (nodes T' ! i) ''filename_prefix'' = Some (JStr ''webcam_3d_mesh''))
       \<and> ((updateWorkflowWithImage_A T A = Inr T' \<or> updateWorkflowWithImage_B T A = Inr T')
            \<and> (class_is (nodes T ! i) ''LoadImage'' \<or> class_is (nodes T ! i) ''LoadImageMask''
                 \<or> class_is (nodes T ! i) ''ImageInput'')
            \<and> input_of (nodes T ! i) ''image'' = Some v \<and> truthy v
            \<and> v \<noteq> JNum Infinity \<and> v \<noteq> JNum NegInfinity \<longrightarrow>
            input_of (nodes T' ! i) ''image'' = Some (JStr A))
       \<and> ((updateWorkflowWithImage_A T A = Inr T' \<or> updateWorkflowWithImage_B T A = Inr T')
            \<and> class_is (nodes T ! i) ''SaveGLB''
            \<and> (input_of (nodes T ! i) ''filename_prefix'' = Some (JNum Infinity)
                 \<or> input_of (nodes T ! i) ''filename_prefix'' = Some (JNum NegInfinity)) \<longrightarrow>
            input_of (nodes T' ! i) ''filename_prefix'' = Some JNull)"
proof -
  let ?n = "nodes T ! i"
  let ?c = "deep_clone (nodes T ! i)"
  have c: "canonical ?n" using assms by (rule canonical_nodes)
  have a: "body ?c = Inr (nodes T' ! i)" if u: "update_nodes body (deep_clone T) = Inr T'" for body
    using update_clone_nth [OF assms(1) u] assms(2) by blast
  have guard: "has_truthy_input ?c k"
    if "input_of ?n k = Some v" "truthy v" "v \<noteq> JNum Infinity" "v \<noteq> JNum NegInfinity" for k
    using that has_truthy_input_deep_clone [OF c, of k] by blast
  have meshA: "input_of (nodes T' ! i) ''filename_prefix'' = Some (JStr ''mesh/webcam_3d_mesh'')"
    if u: "updateWorkflowWithImage_A T A = Inr T'" and cl: "class_is ?n ''SaveGLB''"
      and t: "has_truthy_input ?c ''filename_prefix''"
  proof -
    have cl': "class_is ?c ''SaveGLB''" using cl c by (simp add: class_is_deep_clone)
    have "patch_node_A A ?c = Inr (nodes T' ! i)"
      using u a by (simp add: updateWorkflowWithImage_A_def)
    then have "nodes T' ! i = set_input ?c ''filename_prefix'' (JStr ''mesh/webcam_3d_mesh'')"
      using patch_node_A_mesh [OF cl' t, of A] by simp
    then show ?thesis using input_of_set_input [OF t] by simp
  qed
  have meshB: "input_of (nodes T' ! i) ''filename_prefix'' = Some (JStr ''webcam_3d_mesh'')"
    if u: "updateWorkflowWithImage_B T A = Inr T'" and cl: "class_is ?n ''SaveGLB''"
      and t: "has_truthy_input ?c ''filename_prefix''"
  proof -
    have cl': "class_is ?c ''SaveGLB''" using cl c by (simp add: class_is_deep_clone)
    have "patch_node_B A ?c = Inr (nodes T' ! i)"
      using u a by (simp add: updateWorkflowWithImage_B_def)
    then have "nodes T' ! i = set_input ?c ''filename_prefix'' (JStr ''webcam_3d_mesh'')"
      using patch_node_B_mesh [OF cl' t, of A] by simp
    then show ?thesis using input_of_set_input [OF t] by simp
  qed
  have image: "input_of (nodes T' ! i) ''image'' = Some (JStr A)"
    if u: "updateWorkflowWithImage_A T A = Inr T' \<or> updateWorkflowWithImage_B T A = Inr T'"
      and cl: "class_is ?n ''LoadImage'' \<or> class_is ?n ''LoadImageMask''
                 \<or> class_is ?n ''ImageInput''"
      and t: "has_truthy_input ?c ''image''"
  proof -
    have cl': "class_is ?c ''LoadImage'' \<or> class_is ?c ''LoadImageMask''
                 \<or> class_is ?c ''ImageInput''"
      using cl c by (simp add: class_is_deep_clone)
    have "patch_node_A A ?c = Inr (nodes T' ! i) \<or> patch_node_B A ?c = Inr (nodes T' ! i)"
      using u a by (auto simp: updateWorkflowWithImage_A_def updateWorkflowWithImage_B_def)
    then have "nodes T' ! i = set_input ?c ''image'' (JStr A)"
      using patch_node_A_image [OF cl' t, of A] patch_node_B_image [OF cl' t, of A] by auto
    then show ?thesis using input_of_set_input [OF t] by simp
  qed
  have overflow: "input_of (nodes T' ! i) ''filename_prefix'' = Some JNull"
    if u: "updateWorkflowWithImage_A T A = Inr T' \<or> updateWorkflowWithImage_B T A = Inr T'"
      and cl: "class_is ?n ''SaveGLB''"
      and t: "input_of ?n ''filename_prefix'' = Some (JNum Infinity)
              \<or> input_of ?n ''filename_prefix'' = Some (JNum NegInfinity)"
  proof -
    have cl': "class_is ?c ''SaveGLB''" using cl c by (simp add: class_is_deep_clone)
    then have k: "target_key ?c = ''filename_prefix''" by (simp add: target_key_def)
    have f: "\<not> has_truthy_input ?c (target_key ?c)"
      using t k has_truthy_input_deep_clone [OF c, of "''filename_prefix''"] by auto
    have nn: "?c \<noteq> JNull" using cl' by (rule class_not_null)
    have "patch_node_A A ?c = Inr (nodes T' ! i) \<or> patch_node_B A ?c = Inr (nodes T' ! i)"
      using u a by (auto simp: updateWorkflowWithImage_A_def updateWorkflowWithImage_B_def)
    then have "nodes T' ! i = ?c"
      using patch_node_A_falsy [OF nn f, of A] patch_node_B_falsy [OF nn f, of A] by auto
    then show ?thesis using t input_of_deep_clone [OF c, of "''filename_prefix''"] by auto
  qed
  show ?thesis using meshA meshB image overflow guard by blast
qed

lemma scenario_canonical: "canonical scenario_template"
  by code_simp

lemma scenario_nodes:
  "class_is (nodes scenario_template ! 0) ''LoadImage''"
  "input_of (nodes scenario_template ! 0) ''image'' = Some (JStr ''example.png'')"
  "class_is (nodes scenario_template ! 1) ''SaveGLB''"
  "input_of (nodes scenario_template ! 1) ''filename_prefix'' = Some (JStr ''ComfyUI'')"
  by (simp_all add: scenario_template_def class_is_def input_of_def)

lemma overflow_canonical: "canonical overflow_template"
  by code_simp

lemma overflow_A: "updateWorkflowWithImage_A overflow_template ''webcam_input.jpg'' = Inr overflow_patched"
  by code_simp

lemma overflow_B: "updateWorkflowWithImage_B overflow_template ''webcam_input.jpg'' = Inr overflow_patched"
  by code_simp

lemma overflow_nodes:
  "class_is (nodes overflow_template ! 0) ''SaveGLB''"
  "input_of (nodes overflow_template ! 0) ''filename_prefix'' = Some (JNum Infinity)"
  "truthy (JNum Infinity)"
  by (simp_all add: overflow_template_def class_is_def input_of_def)

text \<open>
  The scenario, one \<^verbatim>\<open>LoadImage\<close> node and one \<^verbatim>\<open>SaveGLB\<close> node; and a \<^verbatim>\<open>SaveGLB\<close> node whose
  \<^verbatim>\<open>filename_prefix\<close> is \<^verbatim>\<open>1e400\<close>.
\<close>

theorem C1_witness:
  "canonical scenario_template
   \<and> updateWorkflowWithImage_A scenario_template ''webcam_input.jpg'' = Inr patched_A
   \<and> updateWorkflowWithImage_B scenario_template ''webcam_input.jpg'' = Inr patched_B
   \<and> class_is (nodes scenario_template ! 0) ''LoadImage''
   \<and> input_of (nodes scenario_template ! 0) ''image'' = Some (JStr ''example.png'')
   \<and> class_is (nodes scenario_template ! 1) ''SaveGLB''
   \<and> input_of (nodes scenario_template ! 1) ''filename_prefix'' = Some (JStr ''ComfyUI'')
   \<and> input_of (nodes patched_A ! 0) ''image'' = Some (JStr ''webcam_input.jpg'')
   \<and> input_of (nodes patched_A ! 1) ''filename_prefix'' = Some (JStr ''mesh/webcam_3d_mesh'')
   \<and> input_of (nodes patched_B ! 1) ''filename_prefix'' = Some (JStr ''webcam_3d_mesh'')
   \<and> canonical overflow_template
   \<and> updateWorkflowWithImage_A overflow_template ''webcam_input.jpg'' = Inr overflow_patched
   \<and> updateWorkflowWithImage_B overflow_template ''webcam_input.jpg'' = Inr overflow_patched
   \<and> class_is (nodes overflow_template ! 0) ''SaveGLB''
   \<and> input_of (nodes overflow_template ! 0) ''filename_prefix'' = Some (JNum Infinity)
   \<and> truthy (JNum Infinity)
   \<and> input_of (nodes overflow_patched ! 0) ''filename_prefix'' = Some JNull"
proof -
  have a: "updateWorkflowWithImage_A scenario_template ''webcam_input.jpg'' = Inr patched_A"
    using scenario_A by (simp add: patched_A_def)
  have b: "updateWorkflowWithImage_B scenario_template ''webcam_input.jpg'' = Inr patched_B"
    using scenario_B by (simp add: patched_B_def)
  have l: "0 < length (nodes scenario_template)" "1 < length (nodes scenario_template)"
    by (simp_all add: scenario_template_def)
  have l': "0 < length (nodes overflow_template)"
    by (simp add: overflow_template_def)
  have 1: "input_of (nodes patched_A ! 0) ''image'' = Some (JStr ''webcam_input.jpg'')"
    using C1_mesh_prefix [OF scenario_canonical l(1),
        where A = "''webcam_input.jpg''" and T' = patched_A and v = "JStr ''example.png''"]
      a scenario_nodes by simp
  have 2: "input_of (nodes patched_A ! 1) ''filename_prefix'' = Some (JStr ''mesh/webcam_3d_mesh'')"
    using C1_mesh_prefix [OF scenario_canonical l(2),
        where A = "''webcam_input.jpg''" and T' = patched_A and v = "JStr ''ComfyUI''"]
      a scenario_nodes by simp
  have 3: "input_of (nodes patched_B ! 1) ''filename_prefix'' = Some (JStr ''webcam_3d_mesh'')"
    using C1_mesh_prefix [OF scenario_canonical l(2),
        where A = "''webcam_input.jpg''" and T' = patched_B and v = "JStr ''ComfyUI''"]
      b scenario_nodes by simp
  have 4: "input_of (nodes overflow_patched ! 0) ''filename_prefix'' = Some JNull"
    using C1_mesh_prefix [OF overflow_canonical l',
        where A = "''webcam_input.jpg''" and T' = overflow_patched]
      overflow_A overflow_nodes by simp
  show ?thesis
    using a b scenario_nodes scenario_canonical 1 2 3 4
      overflow_canonical overflow_A overflow_B overflow_nodes
    by simp
qed

text \<open>
  Claim C1 as stated promises \<^verbatim>\<open>mesh/webcam_3d_mesh\<close> for the scenario; the patcher of
  \<^verbatim>\<open>src/unnamed/part_000\<close>, where \<^verbatim>\<open>MESH_FOLDER\<close> is declared as well, gives the prefix
  without the folder.
\<close>

theorem C1_counterexample:
  "updateWorkflowWithImage_B scenario_template ''webcam_input.jpg'' = Inr patched_B
   \<and> input_of (nodes patched_B ! 1) ''filename_prefix'' = Some (JStr ''webcam_3d_mesh'')
   \<and> input_of (nodes patched_B ! 1) ''filename_prefix'' \<noteq> Some (JStr ''mesh/webcam_3d_mesh'')"
proof -
  have "updateWorkflowWithImage_B scenario_template ''webcam_input.jpg'' = Inr patched_B"
    using scenario_B by (simp add: patched_B_def)
  moreover have "input_of (nodes patched_B ! 1) ''filename_prefix'' = Some (JStr ''webcam_3d_mesh'')"
    by (simp add: patched_B_def input_of_def)
  ultimately show ?thesis by simp
qed












section \<open>The heap: what a call leaves untouched\<close>

lemma extends_refl: "extends h h"
  by (simp add: extends_def)

lemma extends_trans:
  assumes "extends h h1" "extends h1 h2"
  shows "extends h h2"
proof -
  have l: "length h \<le> length h1" "length h1 \<le> length h2"
    and t: "take (length h) h1 = h" "take (length h1) h2 = h1"
    using assms by (simp_all add: extends_def)
  have "take (length h) (take (length h1) h2) = take (length h) h2"
    using l by (simp add: min_def)
  then have "take (length h) h2 = h" using t by simp
  then show ?thesis using l by (simp add: extends_def)
qed

lemma extends_append: "extends h (h @ ext)"
  by (simp add: extends_def)

lemma extends_nth: "extends h h' \<Longrightarrow> a < length h \<Longrightarrow> h' ! a = h ! a"
  by (metis extends_def nth_take)

lemma fresh_mono: "fresh L' v \<Longrightarrow> L \<le> L' \<Longrightarrow> fresh L v"
  by (cases v) auto

lemma set_replace_own: "set (replace_own ms k x) \<subseteq> insert (k, x) (set ms)"
  by (induction ms) (auto split: if_splits)

lemma set_insert_own: "set (insert_own ms k x) \<subseteq> insert (k, x) (set ms)"
  by (induction ms) (auto split: if_splits)

lemma values_replace_own: "set (map snd (replace_own ms k x)) \<subseteq> insert x (set (map snd ms))"
  using image_mono [OF set_replace_own [of ms k x], of snd] by simp

lemma values_insert_own: "set (map snd (insert_own ms k x)) \<subseteq> insert x (set (map snd ms))"
  using image_mono [OF set_insert_own [of ms k x], of snd] by simp

lemma values_define_own: "set (map snd (define_own ms k x)) \<subseteq> insert x (set (map snd ms))"
  using values_replace_own [of ms k x] values_insert_own [of ms k x]
  by (simp add: define_own_def)

lemma values_foldl_define:
  "set (map snd (foldl (\<lambda>acc kv. define_own acc (fst kv) (snd kv)) acc ms))
     \<subseteq> set (map snd acc) \<union> set (map snd ms)"
proof (induction ms arbitrary: acc)
  case Nil
  then show ?case by simp
next
  case (Cons kv ms)
  show ?case
    using Cons.IH [of "define_own acc (fst kv) (snd kv)"] values_define_own [of acc "fst kv" "snd kv"]
    by auto
qed

lemma values_build_object: "set (map snd (build_object ms)) \<subseteq> set (map snd ms)"
  using values_foldl_define [of "[]" ms] by (simp add: build_object_def)

lemma region_append:
  assumes "region L h" "L \<le> length h" "\<forall>v \<in> set (cell_values c). fresh L v"
  shows "region L (h @ [c])"
  using assms by (auto simp: region_def nth_append)

lemma parse_fresh:
  "(\<forall>v h'. JSON_parse j h = (v, h') \<longrightarrow>
      extends h h' \<and> (\<forall>L \<le> length h. region L h \<longrightarrow> region L h' \<and> fresh L v))"
  "(\<forall>vs h'. parse_elements xs h = (vs, h') \<longrightarrow>
      extends h h' \<and> (\<forall>L \<le> length h. region L h \<longrightarrow> region L h' \<and> (\<forall>v \<in> set vs. fresh L v)))"
  "(\<forall>cells h'. parse_members ms h = (cells, h') \<longrightarrow>
      extends h h' \<and> (\<forall>L \<le> length h. region L h \<longrightarrow>
         region L h' \<and> (\<forall>v \<in> set (map snd cells). fresh L v)))"
proof (induction j h and xs h and ms h rule: JSON_parse_parse_elements_parse_members.induct)
  case (5 xs h)
  show ?case
  proof (intro allI impI)
    fix v h' assume a: "JSON_parse (JArr xs) h = (v, h')"
    obtain vs h1 where p: "parse_elements xs h = (vs, h1)" by (cases "parse_elements xs h")
    with a have v: "v = VRef (length h1)" and h': "h' = h1 @ [HArray vs]" by auto
    from 5 p have e: "extends h h1"
      and r: "\<forall>L \<le> length h. region L h \<longrightarrow> region L h1 \<and> (\<forall>v \<in> set vs. fresh L v)" by auto
    have "extends h h'" using e h' extends_append extends_trans by blast
    moreover have "region L h' \<and> fresh L v" if "L \<le> length h" "region L h" for L
    proof -
      have "L \<le> length h1" using that e by (simp add: extends_def)
      then show ?thesis using r that h' v by (auto intro!: region_append)
    qed
    ultimately show "extends h h' \<and> (\<forall>L \<le> length h. region L h \<longrightarrow> region L h' \<and> fresh L v)"
      by blast
  qed
next
  case (6 ms h)
  show ?case
  proof (intro allI impI)
    fix v h' assume a: "JSON_parse (JObj ms) h = (v, h')"
    obtain cells h1 where p: "parse_members ms h = (cells, h1)" by (cases "parse_members ms h")
    with a have v: "v = VRef (length h1)" and h': "h' = h1 @ [HObject (build_object cells)]" by auto
    from 6 p have e: "extends h h1"
      and r: "\<forall>L \<le> length h. region L h \<longrightarrow> region L h1 \<and> (\<forall>v \<in> set (map snd cells). fresh L v)"
      by auto
    have "extends h h'" using e h' extends_append extends_trans by blast
    moreover have "region L h' \<and> fresh L v" if "L \<le> length h" "region L h" for L
    proof -
      have "L \<le> length h1" using that e by (simp add: extends_def)
      moreover have "\<forall>v \<in> set (map snd cells). fresh L v" using r that by blast
      then have "\<forall>v \<in> set (map snd (build_object cells)). fresh L v"
        using values_build_object [of cells] by blast
      then have "\<forall>v \<in> set (cell_values (HObject (build_object cells))). fresh L v"
        by simp
      ultimately show ?thesis using r that h' v by (auto intro!: region_append)
    qed
    ultimately show "extends h h' \<and> (\<forall>L \<le> length h. region L h \<longrightarrow> region L h' \<and> fresh L v)"
      by blast
  qed
next
  case (8 x xs h)
  show ?case
  proof (intro allI impI)
    fix vs h' assume a: "parse_elements (x # xs) h = (vs, h')"
    obtain v h1 where p1: "JSON_parse x h = (v, h1)" by (cases "JSON_parse x h")
    obtain ws h2 where p2: "parse_elements xs h1 = (ws, h2)" by (cases "parse_elements xs h1")
    from a p1 p2 have vs: "vs = v # ws" and h': "h' = h2" by auto
    from 8(1) p1 have e1: "extends h h1"
      and r1: "\<forall>L \<le> length h. region L h \<longrightarrow> region L h1 \<and> fresh L v" by auto
    from 8(2) [OF p1 [symmetric]] p2 have e2: "extends h1 h2"
      and r2: "\<forall>L \<le> length h1. region L h1 \<longrightarrow> region L h2 \<and> (\<forall>v \<in> set ws. fresh L v)" by auto
    have "extends h h'" using e1 e2 h' extends_trans by blast
    moreover have "region L h' \<and> (\<forall>v \<in> set vs. fresh L v)" if "L \<le> length h" "region L h" for L
    proof -
      have "L \<le> length h1" using that e1 by (simp add: extends_def)
      then show ?thesis using r1 r2 that h' vs by auto
    qed
    ultimately show "extends h h' \<and> (\<forall>L \<le> length h. region L h \<longrightarrow>
        region L h' \<and> (\<forall>v \<in> set vs. fresh L v))"
      by blast
  qed
next
  case (10 m ms h)
  show ?case
  proof (intro allI impI)
    fix cells h' assume a: "parse_members (m # ms) h = (cells, h')"
    obtain v h1 where p1: "JSON_parse (snd m) h = (v, h1)" by (cases "JSON_parse (snd m) h")
    obtain ws h2 where p2: "parse_members ms h1 = (ws, h2)" by (cases "parse_members ms h1")
    from a p1 p2 have vs: "cells = (fst m, v) # ws" and h': "h' = h2" by auto
    from 10(1) p1 have e1: "extends h h1"
      and r1: "\<forall>L \<le> length h. region L h \<longrightarrow> region L h1 \<and> fresh L v" by auto
    from 10(2) [OF p1 [symmetric]] p2 have e2: "extends h1 h2"
      and r2: "\<forall>L \<le> length h1. region L h1 \<longrightarrow> region L h2 \<and> (\<forall>v \<in> set (map snd ws). fresh L v)"
      by auto
    have "extends h h'" using e1 e2 h' extends_trans by blast
    moreover have "region L h' \<and> (\<forall>v \<in> set (map snd cells). fresh L v)"
      if "L \<le> length h" "region L h" for L
    proof -
      have "L \<le> length h1" using that e1 by (simp add: extends_def)
      then show ?thesis using r1 r2 that h' vs by auto
    qed
    ultimately show "extends h h' \<and> (\<forall>L \<le> length h. region L h \<longrightarrow>
        region L h' \<and> (\<forall>v \<in> set (map snd cells). fresh L v))"
      by blast
  qed
qed (auto simp: extends_refl)

lemma get_prop_h_fresh:
  assumes "region L h" "fresh L v" "get_prop_h h v k = Some x"
  shows "fresh L x"
proof -
  from assms(3) obtain a ms where v: "v = VRef a" and a: "a < length h"
    and c: "h ! a = HObject ms" and m: "map_of ms k = Some x"
    by (auto simp: get_prop_h_def split: hval.splits if_splits hobj.splits)
  have "x \<in> set (cell_values (h ! a))" using c m by (auto dest!: map_of_SomeD intro: rev_image_eqI)
  then show ?thesis using assms(1,2) v a by (auto simp: region_def)
qed

lemma get_index_h_fresh:
  assumes "region L h" "fresh L v" "get_index_h h v i = Some x"
  shows "fresh L x"
proof -
  from assms(3) obtain a vs where v: "v = VRef a" and a: "a < length h"
    and c: "h ! a = HArray vs" and m: "i < length vs" "x = vs ! i"
    by (auto simp: get_index_h_def split: hval.splits if_splits hobj.splits)
  have "x \<in> set (cell_values (h ! a))" using c m by auto
  then show ?thesis using assms(1,2) v a by (auto simp: region_def)
qed

lemma set_prop_h_keeps:
  assumes r: "region L h" and f: "fresh L v" and x: "fresh L x"
  shows "keeps L h (set_prop_h h v k x)"
proof (cases "\<exists>a ms. v = VRef a \<and> a < length h \<and> h ! a = HObject ms")
  case False
  then have "set_prop_h h v k x = h"
    by (auto simp: set_prop_h_def split: hval.splits hobj.splits)
  then show ?thesis using r by (simp add: keeps_def)
next
  case True
  then obtain a ms where v: "v = VRef a" and a: "a < length h" and c: "h ! a = HObject ms" by blast
  have h': "set_prop_h h v k x = h[a := HObject (define_own ms k x)]"
    using v a c by (simp add: set_prop_h_def)
  have La: "L \<le> a" using f v by simp
  have new: "\<forall>y \<in> set (cell_values (HObject (define_own ms k x))). fresh L y"
  proof
    fix y assume "y \<in> set (cell_values (HObject (define_own ms k x)))"
    then have "y = x \<or> y \<in> set (map snd ms)" using values_define_own [of ms k x] by auto
    moreover have "\<forall>z \<in> set (cell_values (h ! a)). fresh L z"
      using r a La by (simp add: region_def)
    then have "\<forall>z \<in> set (map snd ms). fresh L z" using c by simp
    ultimately show "fresh L y" using x by blast
  qed
  have "region L (h[a := HObject (define_own ms k x)])"
    unfolding region_def
  proof (intro allI impI)
    fix b assume b: "L \<le> b \<and> b < length (h[a := HObject (define_own ms k x)])"
    show "\<forall>y \<in> set (cell_values (h[a := HObject (define_own ms k x)] ! b)). fresh L y"
    proof (cases "b = a")
      case True
      then show ?thesis using new a by simp
    next
      case False
      then show ?thesis using r b by (simp add: region_def)
    qed
  qed
  then show ?thesis using h' La by (simp add: keeps_def)
qed

lemma set_input_h_keeps:
  assumes r: "region L h" and f: "fresh L v"
  shows "keeps L h (set_input_h h v k (VStr s))"
proof (cases "get_prop_h h v ''inputs''")
  case None
  then show ?thesis using r by (simp add: set_input_h_def keeps_def)
next
  case (Some i)
  then have "fresh L i" using get_prop_h_fresh [OF r f] by blast
  then show ?thesis using Some set_prop_h_keeps [OF r, of i "VStr s" k] by (simp add: set_input_h_def)
qed

lemma keeps_refl: "region L h \<Longrightarrow> keeps L h h"
  by (simp add: keeps_def)

lemma keeps_trans: "keeps L h h1 \<Longrightarrow> keeps L h1 h2 \<Longrightarrow> keeps L h h2"
  by (simp add: keeps_def)

lemma guarded_keeps:
  assumes "region L h" "fresh L v"
  shows "keeps L h (if c then set_input_h h v k (VStr s) else h)"
  using assms set_input_h_keeps keeps_refl by simp

lemma patch_node_h_A_keeps:
  assumes r: "region L h" and f: "fresh L v"
  shows "keeps L h (snd (patch_node_h_A A v h))"
proof (cases "v = VNull")
  case True
  then show ?thesis using r by (simp add: patch_node_h_A_def keeps_refl)
next
  case False
  define h1 where "h1 = (if class_is_h h v ''LoadImage'' \<and> has_truthy_input_h h v ''image''
                  then set_input_h h v ''image'' (VStr A) else h)"
  define h2 where "h2 = (if class_is_h h1 v ''SaveImage'' \<and> has_truthy_input_h h1 v ''filename_prefix''
                  then set_input_h h1 v ''filename_prefix'' (VStr OUTPUT_PREFIX) else h1)"
  define h3 where "h3 = (if class_is_h h2 v ''SaveGLB'' \<and> has_truthy_input_h h2 v ''filename_prefix''
                  then set_input_h h2 v ''filename_prefix''
                         (VStr (MESH_FOLDER @ ''/'' @ OUTPUT_PREFIX))
                  else h2)"
  define h4 where "h4 = (if (class_is_h h3 v ''LoadImageMask'' \<or> class_is_h h3 v ''ImageInput'')
                     \<and> has_truthy_input_h h3 v ''image''
                  then set_input_h h3 v ''image'' (VStr A) else h3)"
  have k1: "keeps L h h1" unfolding h1_def using r f by (rule guarded_keeps)
  then have r1: "region L h1" by (simp add: keeps_def)
  have k2: "keeps L h1 h2" unfolding h2_def using r1 f by (rule guarded_keeps)
  then have r2: "region L h2" by (simp add: keeps_def)
  have k3: "keeps L h2 h3" unfolding h3_def using r2 f by (rule guarded_keeps)
  then have r3: "region L h3" by (simp add: keeps_def)
  have k4: "keeps L h3 h4" unfolding h4_def using r3 f by (rule guarded_keeps)
  have "snd (patch_node_h_A A v h) = h4"
    unfolding patch_node_h_A_def Let_def h4_def h3_def h2_def h1_def
    using False by (simp only: if_False snd_conv)
  then show ?thesis using k1 k2 k3 k4 keeps_trans by metis
qed

lemma patch_node_h_B_keeps:
  assumes r: "region L h" and f: "fresh L v"
  shows "keeps L h (snd (patch_node_h_B A v h))"
proof (cases "v = VNull")
  case True
  then show ?thesis using r by (simp add: patch_node_h_B_def keeps_refl)
next
  case False
  define h1 where "h1 = (if class_is_h h v ''LoadImage'' \<and> has_truthy_input_h h v ''image''
                  then set_input_h h v ''image'' (VStr A) else h)"
  define h2 where "h2 = (if class_is_h h1 v ''SaveGLB'' \<and> has_truthy_input_h h1 v ''filename_prefix''
                  then set_input_h h1 v ''filename_prefix'' (VStr OUTPUT_PREFIX) else h1)"
  define h3 where "h3 = (if (class_is_h h2 v ''LoadImageMask'' \<or> class_is_h h2 v ''ImageInput'')
                     \<and> has_truthy_input_h h2 v ''image''
                  then set_input_h h2 v ''image'' (VStr A) else h2)"
  have k1: "keeps L h h1" unfolding h1_def using r f by (rule guarded_keeps)
  then have r1: "region L h1" by (simp add: keeps_def)
  have k2: "keeps L h1 h2" unfolding h2_def using r1 f by (rule guarded_keeps)
  then have r2: "region L h2" by (simp add: keeps_def)
  have k3: "keeps L h2 h3" unfolding h3_def using r2 f by (rule guarded_keeps)
  have "snd (patch_node_h_B A v h) = h3"
    unfolding patch_node_h_B_def Let_def h3_def h2_def h1_def
    using False by (simp only: if_False snd_conv)
  then show ?thesis using k1 k2 k3 keeps_trans by metis
qed

lemma for_in_keys_keeps:
  assumes b: "\<And>v h. region L h \<Longrightarrow> fresh L v \<Longrightarrow> keeps L h (snd (body v h))"
    and f: "fresh L obj"
  shows "region L h \<Longrightarrow> keeps L h (snd (for_in_keys body obj ks h))"
proof (induction ks arbitrary: h)
  case Nil
  then show ?case by (simp add: keeps_refl)
next
  case (Cons k ks)
  show ?case
  proof (cases "get_prop_h h obj k")
    case None
    then show ?thesis using Cons by simp
  next
    case (Some node)
    then have fn: "fresh L node" using get_prop_h_fresh [OF Cons.prems f] by blast
    obtain r h' where bd: "body node h = (r, h')" by (cases "body node h")
    have k1: "keeps L h h'" using b [OF Cons.prems fn] bd by simp
    then have "region L h'" by (simp add: keeps_def)
    then have "keeps L h' (snd (for_in_keys body obj ks h'))" by (rule Cons.IH)
    then show ?thesis using Some bd k1 keeps_trans by (cases r) auto
  qed
qed

lemma for_in_indices_keeps:
  assumes b: "\<And>v h. region L h \<Longrightarrow> fresh L v \<Longrightarrow> keeps L h (snd (body v h))"
    and f: "fresh L obj"
  shows "region L h \<Longrightarrow> keeps L h (snd (for_in_indices body obj ks h))"
proof (induction ks arbitrary: h)
  case Nil
  then show ?case by (simp add: keeps_refl)
next
  case (Cons k ks)
  show ?case
  proof (cases "get_index_h h obj k")
    case None
    then show ?thesis using Cons by simp
  next
    case (Some node)
    then have fn: "fresh L node" using get_index_h_fresh [OF Cons.prems f] by blast
    obtain r h' where bd: "body node h = (r, h')" by (cases "body node h")
    have k1: "keeps L h h'" using b [OF Cons.prems fn] bd by simp
    then have "region L h'" by (simp add: keeps_def)
    then have "keeps L h' (snd (for_in_indices body obj ks h'))" by (rule Cons.IH)
    then show ?thesis using Some bd k1 keeps_trans by (cases r) auto
  qed
qed

lemma update_nodes_h_keeps:
  assumes b: "\<And>v h. region L h \<Longrightarrow> fresh L v \<Longrightarrow> keeps L h (snd (body v h))"
    and f: "fresh L obj" and r: "region L h"
  shows "keeps L h (snd (update_nodes_h body obj h))"
  using for_in_keys_keeps [OF b f r] for_in_indices_keeps [OF b f r] keeps_refl [OF r]
  by (auto simp: update_nodes_h_def split: hval.splits hobj.splits)

lemma region_top: "region (length h) h"
  by (auto simp: region_def)

lemma update_h_extends:
  assumes b: "\<And>L v h. region L h \<Longrightarrow> fresh L v \<Longrightarrow> keeps L h (snd (body v h))"
  shows "extends h (snd (update_h body workflow h))"
proof (cases "stringify_val h [] workflow")
  case (Inl e)
  then show ?thesis by (simp add: update_h_def extends_refl)
next
  case (Inr doc)
  obtain u h1 where p: "JSON_parse doc h = (u, h1)" by (cases "JSON_parse doc h")
  from parse_fresh(1) [of doc h] p region_top [of h]
  have e: "extends h h1" and r1: "region (length h) h1" and fu: "fresh (length h) u" by auto
  have k: "keeps (length h) h1 (snd (update_nodes_h body u h1))"
    using b fu r1 by (rule update_nodes_h_keeps)
  obtain r h2 where un: "update_nodes_h body u h1 = (r, h2)" by (cases "update_nodes_h body u h1")
  have "extends h h2"
    using k un e by (auto simp: keeps_def extends_def)
  moreover have "snd (update_h body workflow h) = h2"
    using Inr p un by (cases r) (simp_all add: update_h_def)
  ultimately show ?thesis by simp
qed

lemma repeat_calls_extends:
  assumes "\<And>h. extends h (snd (call h))"
  shows "extends h (repeat_calls n call h)"
proof (induction n arbitrary: h)
  case 0
  show ?case by (simp add: extends_refl)
next
  case (Suc n)
  have "extends (snd (call h)) (repeat_calls n call (snd (call h)))" by (rule Suc)
  then show ?case using assms [of h] extends_trans by auto
qed

lemma stringify_extends:
  "extends h h' \<longrightarrow> (\<forall>j. stringify_val h stack v = Inr j \<longrightarrow> stringify_val h' stack v = Inr j)"
  "extends h h' \<longrightarrow> (\<forall>js. stringify_vals h stack vs = Inr js \<longrightarrow> stringify_vals h' stack vs = Inr js)"
proof (induction h stack v and h stack vs rule: stringify_val_stringify_vals.induct)
  case (5 h stack a)
  show ?case
  proof (intro allI impI)
    fix j assume e: "extends h h'" and s: "stringify_val h stack (VRef a) = Inr j"
    from s have a: "a \<notin> set stack" "a < length h"
      by (auto split: if_splits)
    have same: "h' ! a = h ! a" using e a(2) by (rule extends_nth)
    have a': "a < length h'" using e a(2) by (simp add: extends_def)
    show "stringify_val h' stack (VRef a) = Inr j"
    proof (cases "h ! a")
      case (HArray vs)
      with s a obtain js where js: "stringify_vals h (a # stack) vs = Inr js" "j = JArr js"
        by (auto split: sum.splits)
      have "stringify_vals h' (a # stack) vs = Inr js"
        using 5(2) [OF _ _ HArray] a e js(1) by simp
      then show ?thesis using a a' same HArray js(2) by simp
    next
      case (HObject ms)
      with s a obtain js where js: "stringify_vals h (a # stack) (map snd ms) = Inr js"
        "j = JObj (zip (map fst ms) js)"
        by (auto split: sum.splits)
      have "stringify_vals h' (a # stack) (map snd ms) = Inr js"
        using 5(1) [OF _ _ HObject] a e js(1) by simp
      then show ?thesis using a a' same HObject js(2) by simp
    qed
  qed
next
  case (7 h stack v vs)
  show ?case
  proof (intro allI impI)
    fix js assume e: "extends h h'" and s: "stringify_vals h stack (v # vs) = Inr js"
    then obtain j js' where j: "stringify_val h stack v = Inr j"
      and js': "stringify_vals h stack vs = Inr js'" and eq: "js = j # js'"
      by (auto split: sum.splits)
    have "stringify_val h' stack v = Inr j" using 7(1) e j by simp
    moreover have "stringify_vals h' stack vs = Inr js'" using 7(2) [OF j] e js' by simp
    ultimately show "stringify_vals h' stack (v # vs) = Inr js" using eq by simp
  qed
qed simp_all

text \<open>
  Claim C5. On the heap, any number of calls of \<open>updateWorkflowWithImage\<close> leave every cell
  that existed before them as it was: the heap before is a prefix of the heap after, for
  every heap, template and asset name, also when a call throws. So a template that
  serialises to \<open>T\<close> before the calls serialises to \<open>T\<close> after them.
\<close>

theorem C5_template_not_mutated:
  "take (length h) (repeat_calls n (updateWorkflowWithImage_h_A workflow imageName) h) = h
   \<and> take (length h) (repeat_calls n (updateWorkflowWithImage_h_B workflow imageName) h) = h
   \<and> (stringify_val h [] workflow = Inr T \<longrightarrow>
        stringify_val (repeat_calls n (updateWorkflowWithImage_h_A workflow imageName) h) [] workflow
          = Inr T
        \<and> stringify_val (repeat_calls n (updateWorkflowWithImage_h_B workflow imageName) h) [] workflow
          = Inr T)"
proof -
  define hA where "hA = repeat_calls n (updateWorkflowWithImage_h_A workflow imageName) h"
  define hB where "hB = repeat_calls n (updateWorkflowWithImage_h_B workflow imageName) h"
  have a: "extends h hA"
    unfolding hA_def
  proof (rule repeat_calls_extends)
    fix h0
    show "extends h0 (snd (updateWorkflowWithImage_h_A workflow imageName h0))"
      unfolding updateWorkflowWithImage_h_A_def
      by (rule update_h_extends) (rule patch_node_h_A_keeps)
  qed
  have b: "extends h hB"
    unfolding hB_def
  proof (rule repeat_calls_extends)
    fix h0
    show "extends h0 (snd (updateWorkflowWithImage_h_B workflow imageName h0))"
      unfolding updateWorkflowWithImage_h_B_def
      by (rule update_h_extends) (rule patch_node_h_B_keeps)
  qed
  have ta: "take (length h) hA = h" using a unfolding extends_def by (rule conjunct2)
  have tb: "take (length h) hB = h" using b unfolding extends_def by (rule conjunct2)
  have sa: "stringify_val hA [] workflow = Inr T" if "stringify_val h [] workflow = Inr T"
    using stringify_extends(1) [of h hA "[]" workflow] a that by blast
  have sb: "stringify_val hB [] workflow = Inr T" if "stringify_val h [] workflow = Inr T"
    using stringify_extends(1) [of h hB "[]" workflow] b that by blast
  show ?thesis
    using ta tb sa sb unfolding hA_def hB_def by blast
qed

lemma scenario_heap_reads: "stringify_val scenario_heap [] (VRef 5) = Inr scenario_template"
  by (simp add: scenario_heap_def scenario_template_def)

text \<open>Three calls on the heap that holds the scenario template.\<close>

theorem C5_witness:
  "stringify_val scenario_heap [] (VRef 5) = Inr scenario_template
   \<and> stringify_val
        (repeat_calls 3 (updateWorkflowWithImage_h_A (VRef 5) ''webcam_input.jpg'') scenario_heap)
        [] (VRef 5) = Inr scenario_template
   \<and> stringify_val
        (repeat_calls 3 (updateWorkflowWithImage_h_B (VRef 5) ''webcam_input.jpg'') scenario_heap)
        [] (VRef 5) = Inr scenario_template"
  using scenario_heap_reads
    C5_template_not_mutated [of scenario_heap 3 "VRef 5" "''webcam_input.jpg''" scenario_template]
  by blast

section \<open>The heap: the call computes the function on values\<close>

inductive_cases tree_nullE: "tree h lo hi v JNull"
inductive_cases tree_boolE: "tree h lo hi v (JBool b)"
inductive_cases tree_numE: "tree h lo hi v (JNum r)"
inductive_cases tree_strE: "tree h lo hi v (JStr s)"
inductive_cases tree_arrE: "tree h lo hi v (JArr js)"
inductive_cases tree_objE: "tree h lo hi v (JObj ms)"
inductive_cases trees_consE: "trees h lo hi (v # vs) js"
inductive_cases trees_nilE: "trees h lo hi [] js"

lemma tree_bounds:
  "tree h lo hi v j \<Longrightarrow> lo \<le> hi"
  "trees h lo hi vs js \<Longrightarrow> lo \<le> hi \<and> length vs = length js"
  by (induction rule: tree_trees.inducts) auto

lemma tree_transport:
  "tree h lo hi v j \<Longrightarrow>
     (\<forall>a. lo \<le> a \<and> a < hi \<longrightarrow> a < length h' \<and> h' ! a = h ! a) \<longrightarrow> tree h' lo hi v j"
  "trees h lo hi vs js \<Longrightarrow>
     (\<forall>a. lo \<le> a \<and> a < hi \<longrightarrow> a < length h' \<and> h' ! a = h ! a) \<longrightarrow> trees h' lo hi vs js"
proof (induction rule: tree_trees.inducts)
  case (t_arr lo a vs js)
  show ?case
  proof
    assume f: "\<forall>b. lo \<le> b \<and> b < Suc a \<longrightarrow> b < length h' \<and> h' ! b = h ! b"
    have la: "lo \<le> a" using t_arr(1) tree_bounds(2) by blast
    have "trees h' lo a vs js" using t_arr(2) f by simp
    moreover have "a < length h'" "h' ! a = HArray vs" using f la t_arr(1,3,4) by auto
    ultimately show "tree h' lo (Suc a) (VRef a) (JArr js)" by (rule tree_trees.t_arr)
  qed
next
  case (t_obj lo a vs ms)
  show ?case
  proof
    assume f: "\<forall>b. lo \<le> b \<and> b < Suc a \<longrightarrow> b < length h' \<and> h' ! b = h ! b"
    have la: "lo \<le> a" using t_obj(1) tree_bounds(2) by blast
    have "trees h' lo a vs (map snd ms)" using t_obj(2) f by simp
    moreover have "a < length h'" "h' ! a = HObject (zip (map fst ms) vs)"
      using f la t_obj(1,3,4) by auto
    ultimately show "tree h' lo (Suc a) (VRef a) (JObj ms)" by (rule tree_trees.t_obj)
  qed
next
  case (ts_cons lo mid v j hi vs js)
  show ?case
  proof
    assume f: "\<forall>b. lo \<le> b \<and> b < hi \<longrightarrow> b < length h' \<and> h' ! b = h ! b"
    have b: "lo \<le> mid" "mid \<le> hi"
      using ts_cons(1,3) tree_bounds by blast+
    have "tree h' lo mid v j" using ts_cons(2) f b by simp
    moreover have "trees h' mid hi vs js" using ts_cons(4) f b by simp
    ultimately show "trees h' lo hi (v # vs) (j # js)" by (rule tree_trees.ts_cons)
  qed
qed (auto intro: tree_trees.intros)

lemma tree_extends:
  assumes "tree h lo hi v j" "extends h h'" "hi \<le> length h"
  shows "tree h' lo hi v j"
proof -
  have "\<forall>a. lo \<le> a \<and> a < hi \<longrightarrow> a < length h' \<and> h' ! a = h ! a"
    using assms(2,3) extends_nth [OF assms(2)] by (auto simp: extends_def)
  then show ?thesis using tree_transport(1) [OF assms(1)] by blast
qed

lemma trees_extends:
  assumes "trees h lo hi vs js" "extends h h'" "hi \<le> length h"
  shows "trees h' lo hi vs js"
proof -
  have "\<forall>a. lo \<le> a \<and> a < hi \<longrightarrow> a < length h' \<and> h' ! a = h ! a"
    using assms(2,3) extends_nth [OF assms(2)] by (auto simp: extends_def)
  then show ?thesis using tree_transport(2) [OF assms(1)] by blast
qed

lemma tree_stringify:
  "tree h lo hi v j \<Longrightarrow>
     (\<forall>stack. (\<forall>a \<in> set stack. a < lo \<or> hi \<le> a) \<longrightarrow> stringify_val h stack v = Inr j)"
  "trees h lo hi vs js \<Longrightarrow>
     (\<forall>stack. (\<forall>a \<in> set stack. a < lo \<or> hi \<le> a) \<longrightarrow> stringify_vals h stack vs = Inr js)"
proof (induction rule: tree_trees.inducts)
  case (t_arr lo a vs js)
  show ?case
  proof (intro allI impI)
    fix stack assume s: "\<forall>b \<in> set stack. b < lo \<or> Suc a \<le> b"
    have la: "lo \<le> a" using t_arr(1) tree_bounds(2) by blast
    have n: "a \<notin> set stack" using s la by auto
    have "\<forall>b \<in> set (a # stack). b < lo \<or> a \<le> b" using s by auto
    then have "stringify_vals h (a # stack) vs = Inr js" using t_arr(2) by blast
    then show "stringify_val h stack (VRef a) = Inr (JArr js)"
      using n t_arr(1,3,4) by simp
  qed
next
  case (t_obj lo a vs ms)
  show ?case
  proof (intro allI impI)
    fix stack assume s: "\<forall>b \<in> set stack. b < lo \<or> Suc a \<le> b"
    have la: "lo \<le> a" and len: "length vs = length ms"
      using t_obj(1) tree_bounds(2) by fastforce+
    have n: "a \<notin> set stack" using s la by auto
    have "\<forall>b \<in> set (a # stack). b < lo \<or> a \<le> b" using s by auto
    then have "stringify_vals h (a # stack) vs = Inr (map snd ms)" using t_obj(2) by blast
    moreover have "map snd (zip (map fst ms) vs) = vs" "map fst (zip (map fst ms) vs) = map fst ms"
      using len by simp_all
    moreover have "zip (map fst ms) (map snd ms) = ms" by (simp add: zip_map_fst_snd)
    ultimately show "stringify_val h stack (VRef a) = Inr (JObj ms)"
      using n t_obj(1,3,4) by simp
  qed
next
  case (ts_cons lo mid v j hi vs js)
  show ?case
  proof (intro allI impI)
    fix stack assume s: "\<forall>b \<in> set stack. b < lo \<or> hi \<le> b"
    have b: "lo \<le> mid" "mid \<le> hi"
      using ts_cons(1,3) tree_bounds by blast+
    have "\<forall>b \<in> set stack. b < lo \<or> mid \<le> b" using s b by auto
    then have 1: "stringify_val h stack v = Inr j" using ts_cons(2) by blast
    have "\<forall>b \<in> set stack. b < mid \<or> hi \<le> b" using s b by auto
    then have 2: "stringify_vals h stack vs = Inr js" using ts_cons(4) by blast
    show "stringify_vals h stack (v # vs) = Inr (j # js)" using 1 2 by simp
  qed
qed auto


lemma parse_extends:
  "JSON_parse j h = (v, h') \<Longrightarrow> extends h h'"
  "parse_elements xs h = (vs, h') \<Longrightarrow> extends h h'"
  "parse_members ms h = (cells, h') \<Longrightarrow> extends h h'"
  using parse_fresh(1) [of j h] parse_fresh(2) [of xs h] parse_fresh(3) [of ms h] by blast+

lemma parse_tree:
  "canonical j \<and> plain j \<longrightarrow>
     (\<forall>v h'. JSON_parse j h = (v, h') \<longrightarrow> tree h' (length h) (length h') v j)"
  "(\<forall>x \<in> set xs. canonical x \<and> plain x) \<longrightarrow>
     (\<forall>vs h'. parse_elements xs h = (vs, h') \<longrightarrow> trees h' (length h) (length h') vs xs)"
  "(\<forall>m \<in> set ms. canonical (snd m) \<and> plain (snd m)) \<longrightarrow>
     (\<forall>cells h'. parse_members ms h = (cells, h') \<longrightarrow>
        map fst cells = map fst ms
        \<and> trees h' (length h) (length h') (map snd cells) (map snd ms))"
proof (induction j h and xs h and ms h rule: JSON_parse_parse_elements_parse_members.induct)
  case (5 xs h)
  show ?case
  proof (intro allI impI)
    fix v h' assume c: "canonical (JArr xs) \<and> plain (JArr xs)"
      and a: "JSON_parse (JArr xs) h = (v, h')"
    obtain vs h1 where p: "parse_elements xs h = (vs, h1)" by (cases "parse_elements xs h")
    with a have v: "v = VRef (length h1)" and h': "h' = h1 @ [HArray vs]" by auto
    have t: "trees h1 (length h) (length h1) vs xs" using 5 c p by simp
    have "trees h' (length h) (length h1) vs xs"
      using t extends_append [of h1 "[HArray vs]"] h' by (auto intro: trees_extends)
    moreover have "length h1 < length h'" "h' ! length h1 = HArray vs" using h' by simp_all
    ultimately have "tree h' (length h) (Suc (length h1)) (VRef (length h1)) (JArr xs)"
      by (rule tree_trees.t_arr)
    then show "tree h' (length h) (length h') v (JArr xs)" using v h' by simp
  qed
next
  case (6 ms h)
  show ?case
  proof (intro allI impI)
    fix v h' assume c: "canonical (JObj ms) \<and> plain (JObj ms)"
      and a: "JSON_parse (JObj ms) h = (v, h')"
    obtain cells h1 where p: "parse_members ms h = (cells, h1)" by (cases "parse_members ms h")
    with a have v: "v = VRef (length h1)" and h': "h' = h1 @ [HObject (build_object cells)]" by auto
    have k: "map fst cells = map fst ms"
      and t: "trees h1 (length h) (length h1) (map snd cells) (map snd ms)"
      using 6 c p by simp_all
    have "canon_keys (map fst cells)" using c k by simp
    then have b: "build_object cells = cells" by (rule build_object_canon)
    have z: "cells = zip (map fst ms) (map snd cells)"
      using k zip_map_fst_snd [of cells] by simp
    have "trees h' (length h) (length h1) (map snd cells) (map snd ms)"
      using t extends_append [of h1 "[HObject (build_object cells)]"] h' by (auto intro: trees_extends)
    moreover have "length h1 < length h'" using h' by simp
    moreover have "h' ! length h1 = HObject (zip (map fst ms) (map snd cells))"
      using h' b z by simp
    ultimately have "tree h' (length h) (Suc (length h1)) (VRef (length h1)) (JObj ms)"
      by (rule tree_trees.t_obj)
    then show "tree h' (length h) (length h') v (JObj ms)" using v h' by simp
  qed
next
  case (8 x xs h)
  show ?case
  proof (intro allI impI)
    fix vs h' assume c: "\<forall>y \<in> set (x # xs). canonical y \<and> plain y"
      and a: "parse_elements (x # xs) h = (vs, h')"
    obtain v h1 where p1: "JSON_parse x h = (v, h1)" by (cases "JSON_parse x h")
    obtain ws h2 where p2: "parse_elements xs h1 = (ws, h2)" by (cases "parse_elements xs h1")
    from a p1 p2 have vs: "vs = v # ws" and h': "h' = h2" by auto
    have t1: "tree h1 (length h) (length h1) v x" using 8(1) c p1 by simp
    have t2: "trees h2 (length h1) (length h2) ws xs" using 8(2) [OF p1 [symmetric]] c p2 by simp
    have "tree h2 (length h) (length h1) v x"
      using t1 parse_extends(2) [OF p2] by (auto intro: tree_extends)
    then show "trees h' (length h) (length h') vs (x # xs)"
      using t2 vs h' by (auto intro: tree_trees.ts_cons)
  qed
next
  case (10 m ms h)
  show ?case
  proof (intro allI impI)
    fix cells h' assume c: "\<forall>y \<in> set (m # ms). canonical (snd y) \<and> plain (snd y)"
      and a: "parse_members (m # ms) h = (cells, h')"
    obtain v h1 where p1: "JSON_parse (snd m) h = (v, h1)" by (cases "JSON_parse (snd m) h")
    obtain ws h2 where p2: "parse_members ms h1 = (ws, h2)" by (cases "parse_members ms h1")
    from a p1 p2 have vs: "cells = (fst m, v) # ws" and h': "h' = h2" by auto
    have t1: "tree h1 (length h) (length h1) v (snd m)" using 10(1) c p1 by simp
    have k: "map fst ws = map fst ms"
      and t2: "trees h2 (length h1) (length h2) (map snd ws) (map snd ms)"
      using 10(2) [OF p1 [symmetric]] c p2 by simp_all
    have "tree h2 (length h) (length h1) v (snd m)"
      using t1 parse_extends(3) [OF p2] by (auto intro: tree_extends)
    then have "trees h2 (length h) (length h2) (v # map snd ws) (snd m # map snd ms)"
      using t2 by (rule tree_trees.ts_cons)
    then show "map fst cells = map fst (m # ms)
        \<and> trees h' (length h) (length h') (map snd cells) (map snd (m # ms))"
      using k vs h' by simp
  qed
qed (auto intro: tree_trees.intros split: number.splits)

lemma plain_zip:
  assumes "\<forall>x \<in> set js. plain x"
  shows "plain (JObj (zip ks js))"
proof -
  have "plain (snd kv)" if "kv \<in> set (zip ks js)" for kv
  proof -
    obtain a b where kv: "kv = (a, b)" by (cases kv)
    then have "b \<in> set js" using that by (auto dest: set_zip_rightD)
    then show ?thesis using assms kv by simp
  qed
  then show ?thesis by simp
qed

lemma plain_number_text: "plain (number_text n)"
  by (cases n) simp_all

lemma stringify_plain:
  "\<forall>j. stringify_val h stack v = Inr j \<longrightarrow> plain j"
  "\<forall>js. stringify_vals h stack vs = Inr js \<longrightarrow> (\<forall>x \<in> set js. plain x)"
proof (induction h stack v and h stack vs rule: stringify_val_stringify_vals.induct)
  case (5 h stack a)
  show ?case
  proof (intro allI impI)
    fix j assume s: "stringify_val h stack (VRef a) = Inr j"
    then have a: "a \<notin> set stack" "\<not> length h \<le> a"
      by (auto split: if_splits)
    show "plain j"
    proof (cases "h ! a")
      case (HArray vs)
      with s a obtain js where js: "stringify_vals h (a # stack) vs = Inr js" "j = JArr js"
        by (auto split: sum.splits)
      then show ?thesis using 5(2) [OF a HArray] by simp
    next
      case (HObject ms)
      with s a obtain js where js: "stringify_vals h (a # stack) (map snd ms) = Inr js"
        "j = JObj (zip (map fst ms) js)"
        by (auto split: sum.splits)
      then have "\<forall>x \<in> set js. plain x" using 5(1) [OF a HObject] by simp
      then show ?thesis using js(2) plain_zip by simp
    qed
  qed
next
  case (7 h stack v vs)
  show ?case
  proof (intro allI impI)
    fix js assume s: "stringify_vals h stack (v # vs) = Inr js"
    then obtain j js' where j: "stringify_val h stack v = Inr j"
      and js': "stringify_vals h stack vs = Inr js'" and eq: "js = j # js'"
      by (auto split: sum.splits)
    show "\<forall>x \<in> set js. plain x" using 7(1) 7(2) [OF j] j js' eq by simp
  qed
qed (simp_all add: plain_number_text)


lemma trees_focus:
  "trees h lo hi vs js \<Longrightarrow> p < length vs \<Longrightarrow>
   \<exists>lp hp. lo \<le> lp \<and> hp \<le> hi \<and> tree h lp hp (vs ! p) (js ! p) \<and>
     (\<forall>h' v' j'.
        (\<forall>a. lo \<le> a \<and> a < hi \<and> (a < lp \<or> hp \<le> a) \<longrightarrow> a < length h' \<and> h' ! a = h ! a) \<longrightarrow>
        tree h' lp hp v' j' \<longrightarrow> trees h' lo hi (vs[p := v']) (js[p := j']))"
proof (induction p arbitrary: lo vs js)
  case 0
  then obtain v vs' where vs: "vs = v # vs'" by (cases vs) auto
  with 0 obtain j js' mid where js: "js = j # js'" and t: "tree h lo mid v j"
    and ts: "trees h mid hi vs' js'"
    by (auto elim: trees_consE)
  have b: "lo \<le> mid" "mid \<le> hi" using t ts tree_bounds by blast+
  have "trees h' lo hi (vs[0 := v']) (js[0 := j'])"
    if f: "\<forall>a. lo \<le> a \<and> a < hi \<and> (a < lo \<or> mid \<le> a) \<longrightarrow> a < length h' \<and> h' ! a = h ! a"
      and n: "tree h' lo mid v' j'" for h' v' j'
  proof -
    have "\<forall>a. mid \<le> a \<and> a < hi \<longrightarrow> a < length h' \<and> h' ! a = h ! a" using f b by auto
    then have "trees h' mid hi vs' js'" using tree_transport(2) [OF ts] by blast
    then show ?thesis using n vs js by (auto intro: tree_trees.ts_cons)
  qed
  then show ?case using t b vs js by (intro exI [of _ lo] exI [of _ mid]) auto
next
  case (Suc p)
  then obtain v vs' where vs: "vs = v # vs'" by (cases vs) auto
  with Suc.prems obtain j js' mid where js: "js = j # js'" and t: "tree h lo mid v j"
    and ts: "trees h mid hi vs' js'"
    by (auto elim: trees_consE)
  have b: "lo \<le> mid" "mid \<le> hi" using t ts tree_bounds by blast+
  have "p < length vs'" using Suc.prems vs by simp
  from Suc.IH [OF ts this] obtain lp hp where l: "mid \<le> lp" "hp \<le> hi"
    and c: "tree h lp hp (vs' ! p) (js' ! p)"
    and r: "\<And>h' v' j'.
        (\<forall>a. mid \<le> a \<and> a < hi \<and> (a < lp \<or> hp \<le> a) \<longrightarrow> a < length h' \<and> h' ! a = h ! a) \<Longrightarrow>
        tree h' lp hp v' j' \<Longrightarrow> trees h' mid hi (vs'[p := v']) (js'[p := j'])"
    by blast
  have "trees h' lo hi (vs[Suc p := v']) (js[Suc p := j'])"
    if f: "\<forall>a. lo \<le> a \<and> a < hi \<and> (a < lp \<or> hp \<le> a) \<longrightarrow> a < length h' \<and> h' ! a = h ! a"
      and n: "tree h' lp hp v' j'" for h' v' j'
  proof -
    have "\<forall>a. lo \<le> a \<and> a < mid \<longrightarrow> a < length h' \<and> h' ! a = h ! a" using f b l by auto
    then have 1: "tree h' lo mid v j" using tree_transport(1) [OF t] by blast
    have "\<forall>a. mid \<le> a \<and> a < hi \<and> (a < lp \<or> hp \<le> a) \<longrightarrow> a < length h' \<and> h' ! a = h ! a"
      using f b by auto
    then have "trees h' mid hi (vs'[p := v']) (js'[p := j'])" using r n by blast
    then show ?thesis using 1 vs js by (auto intro: tree_trees.ts_cons)
  qed
  moreover have "lo \<le> lp" using b l by simp
  ultimately show ?case using c l vs js by (intro exI [of _ lp] exI [of _ hp]) auto
qed

lemma map_of_position:
  "map_of ms k = Some x \<Longrightarrow>
   \<exists>q < length ms. ms ! q = (k, x)
     \<and> (\<forall>y. replace_own ms k y = ms[q := (k, y)])
     \<and> (\<forall>vs :: 'b list. length vs = length ms \<longrightarrow> map_of (zip (map fst ms) vs) k = Some (vs ! q))
     \<and> (\<forall>(vs :: 'b list) y. length vs = length ms \<longrightarrow>
           replace_own (zip (map fst ms) vs) k y = zip (map fst ms) (vs[q := y]))"
proof (induction ms)
  case Nil
  then show ?case by simp
next
  case (Cons m ms)
  show ?case
  proof (cases "fst m = k")
    case True
    then have m: "m = (k, x)" using Cons.prems by (cases m) auto
    have "\<forall>vs :: 'b list. length vs = length (m # ms) \<longrightarrow> map_of (zip (map fst (m # ms)) vs) k = Some (vs ! 0)"
      using True by (auto simp: length_Suc_conv)
    moreover have "\<forall>(vs :: 'b list) y. length vs = length (m # ms) \<longrightarrow>
           replace_own (zip (map fst (m # ms)) vs) k y = zip (map fst (m # ms)) (vs[0 := y])"
      using True by (auto simp: length_Suc_conv)
    ultimately show ?thesis using m by (intro exI [of _ 0]) simp
  next
    case False
    then have "map_of ms k = Some x" using Cons.prems by (cases m) auto
    from Cons.IH [OF this] obtain q where q: "q < length ms" "ms ! q = (k, x)"
      and r: "\<forall>y. replace_own ms k y = ms[q := (k, y)]"
      and z: "\<forall>vs :: 'b list. length vs = length ms \<longrightarrow> map_of (zip (map fst ms) vs) k = Some (vs ! q)"
      and w: "\<forall>(vs :: 'b list) y. length vs = length ms \<longrightarrow>
           replace_own (zip (map fst ms) vs) k y = zip (map fst ms) (vs[q := y])"
      by blast
    have 1: "\<forall>y. replace_own (m # ms) k y = (m # ms)[Suc q := (k, y)]"
      using False r by (cases m) auto
    have 2: "\<forall>vs :: 'b list. length vs = length (m # ms) \<longrightarrow>
        map_of (zip (map fst (m # ms)) vs) k = Some (vs ! Suc q)"
      using False z by (auto simp: length_Suc_conv)
    have 3: "\<forall>(vs :: 'b list) y. length vs = length (m # ms) \<longrightarrow>
           replace_own (zip (map fst (m # ms)) vs) k y = zip (map fst (m # ms)) (vs[Suc q := y])"
      using False w by (auto simp: length_Suc_conv)
    show ?thesis using q 1 2 3 by (intro exI [of _ "Suc q"]) simp
  qed
qed

lemma map_of_zip_none:
  assumes "map_of ms k = None" "length vs = length ms"
  shows "map_of (zip (map fst ms) vs) k = None"
proof -
  have "k \<notin> set (map fst ms)" using assms(1) by (simp add: map_of_eq_None_iff)
  moreover have "length (map fst ms) = length vs" using assms(2) by simp
  ultimately show ?thesis using map_of_zip_is_None by metis
qed

lemma tree_values:
  assumes "tree h lo hi v j"
  shows "truthy_h v = truthy j" "(v = VNull) = (j = JNull)" "(v = VStr s) = (j = JStr s)"
  using assms by (cases rule: tree.cases; simp)+

lemma tree_get_prop:
  assumes t: "tree h lo hi v j"
  shows "case get_prop j k of
           None \<Rightarrow> get_prop_h h v k = None
         | Some x \<Rightarrow> (\<exists>y lp hp. get_prop_h h v k = Some y \<and> tree h lp hp y x)"
proof (cases j)
  case (JObj ms)
  with t obtain a vs where v: "v = VRef a" and ts: "trees h lo a vs (map snd ms)"
    and a: "a < length h" and c: "h ! a = HObject (zip (map fst ms) vs)"
    by (auto elim: tree_objE)
  have len: "length vs = length ms" using ts tree_bounds(2) by fastforce
  have g: "get_prop_h h v k = map_of (zip (map fst ms) vs) k"
    using v a c by (simp add: get_prop_h_def)
  show ?thesis
  proof (cases "map_of ms k")
    case None
    then show ?thesis using g JObj map_of_zip_none [OF None len] by simp
  next
    case (Some x)
    from map_of_position [OF Some] obtain q where q: "q < length ms" "ms ! q = (k, x)"
      and z: "map_of (zip (map fst ms) vs) k = Some (vs ! q)"
      using len by blast
    from trees_focus [OF ts, of q] q len obtain lp hp
      where "tree h lp hp (vs ! q) (map snd ms ! q)" by auto
    then have "tree h lp hp (vs ! q) x" using q by simp
    then show ?thesis using g z JObj Some by auto
  qed
next
  case (JArr xs)
  with t obtain a vs where "v = VRef a" "a < length h" "h ! a = HArray vs"
    by (auto elim: tree_arrE)
  then show ?thesis using JArr by (simp add: get_prop_h_def)
qed (use t in \<open>auto elim: tree_nullE tree_boolE tree_numE tree_strE simp: get_prop_h_def\<close>)

lemma tree_class_is:
  assumes "tree h lo hi v j"
  shows "class_is_h h v c = class_is j c"
proof (cases "get_prop j ''class_type''")
  case None
  then show ?thesis using tree_get_prop [OF assms, of "''class_type''"]
    by (simp add: class_is_h_def class_is_def)
next
  case (Some x)
  then obtain y lp hp where "get_prop_h h v ''class_type'' = Some y" "tree h lp hp y x"
    using tree_get_prop [OF assms, of "''class_type''"] by auto
  then show ?thesis using Some tree_values(3) [of h lp hp y x c]
    by (simp add: class_is_h_def class_is_def)
qed

lemma tree_has_truthy_input:
  assumes "tree h lo hi v j"
  shows "has_truthy_input_h h v k = has_truthy_input j k"
proof (cases "get_prop j ''inputs''")
  case None
  then show ?thesis using tree_get_prop [OF assms, of "''inputs''"]
    by (simp add: has_truthy_input_h_def has_truthy_input_def)
next
  case (Some x)
  then obtain y lp hp where y: "get_prop_h h v ''inputs'' = Some y" and ty: "tree h lp hp y x"
    using tree_get_prop [OF assms, of "''inputs''"] by auto
  have tr: "truthy_h y = truthy x" using ty by (rule tree_values(1))
  show ?thesis
  proof (cases "get_prop x k")
    case None
    then show ?thesis using tree_get_prop [OF ty, of k] Some y
      by (simp add: has_truthy_input_h_def has_truthy_input_def)
  next
    case (Some z)
    then obtain w lq hq where w: "get_prop_h h y k = Some w" and tw: "tree h lq hq w z"
      using tree_get_prop [OF ty, of k] by auto
    have "truthy_h w = truthy z" using tw by (rule tree_values(1))
    then show ?thesis using \<open>get_prop j ''inputs'' = Some x\<close> Some y w tr
      by (simp add: has_truthy_input_h_def has_truthy_input_def)
  qed
qed


lemma sim_refl: "sim lo hi h h"
  by (simp add: sim_def)

lemma sim_trans: "sim lo hi h h1 \<Longrightarrow> sim lo hi h1 h2 \<Longrightarrow> sim lo hi h h2"
  by (simp add: sim_def)

lemma define_own_present:
  "map_of ms k = Some old \<Longrightarrow> define_own ms k y = replace_own ms k y"
proof -
  assume "map_of ms k = Some old"
  then have "k \<in> set (map fst ms)" by (metis map_of_eq_None_iff option.distinct(1) set_map)
  then show ?thesis by (simp add: define_own_def)
qed

lemma set_input_sim:
  assumes t: "tree h lo hi v j" and g: "has_truthy_input j k"
  shows "tree (set_input_h h v k (VStr s)) lo hi v (set_input j k (JStr s))
       \<and> sim lo hi h (set_input_h h v k (VStr s))"
proof -
  from g obtain im old where gi: "get_prop j ''inputs'' = Some (JObj im)"
    and gk: "map_of im k = Some old"
    by (auto simp: has_truthy_input_iff)
  from gi obtain nm where j: "j = JObj nm" and mi: "map_of nm ''inputs'' = Some (JObj im)"
    by (auto dest: get_prop_Some_obj)
  from t j obtain a vs where v: "v = VRef a" and hi: "hi = Suc a"
    and ts: "trees h lo a vs (map snd nm)"
    and a: "a < length h" and ca: "h ! a = HObject (zip (map fst nm) vs)"
    by (auto elim: tree_objE)
  have lenv: "length vs = length nm" using ts tree_bounds(2) by fastforce
  from map_of_position [OF mi] obtain p where p: "p < length nm" "nm ! p = (''inputs'', JObj im)"
    and rp: "\<And>y. replace_own nm ''inputs'' y = nm[p := (''inputs'', y)]"
    and zp: "map_of (zip (map fst nm) vs) ''inputs'' = Some (vs ! p)"
    using lenv by blast
  from trees_focus [OF ts, of p] p lenv obtain lp hp where lp: "lo \<le> lp" "hp \<le> a"
    and tp: "tree h lp hp (vs ! p) (JObj im)"
    and rebuild1: "\<And>h' v' j'.
        (\<forall>b. lo \<le> b \<and> b < a \<and> (b < lp \<or> hp \<le> b) \<longrightarrow> b < length h' \<and> h' ! b = h ! b) \<Longrightarrow>
        tree h' lp hp v' j' \<Longrightarrow> trees h' lo a (vs[p := v']) ((map snd nm)[p := j'])"
    by auto
  from tp obtain i ws where vp: "vs ! p = VRef i" and hp: "hp = Suc i"
    and tsi: "trees h lp i ws (map snd im)"
    and i: "i < length h" and ci: "h ! i = HObject (zip (map fst im) ws)"
    by (auto elim: tree_objE)
  have lenw: "length ws = length im" and lpi: "lp \<le> i" using tsi tree_bounds(2) by fastforce+
  from map_of_position [OF gk] obtain q where q: "q < length im" "im ! q = (k, old)"
    and rq: "\<And>y. replace_own im k y = im[q := (k, y)]"
    and zq: "map_of (zip (map fst im) ws) k = Some (ws ! q)"
    and wq: "\<And>y. replace_own (zip (map fst im) ws) k y = zip (map fst im) (ws[q := y])"
    using lenw by blast
  define im' where "im' = im[q := (k, JStr s)]"
  define nm' where "nm' = nm[p := (''inputs'', JObj im')]"
  define h' where "h' = h[i := HObject (zip (map fst im) (ws[q := VStr s]))]"
  have heap: "set_input_h h v k (VStr s) = h'"
  proof -
    have "get_prop_h h v ''inputs'' = Some (VRef i)"
      using v a ca zp vp by (simp add: get_prop_h_def)
    moreover have "set_prop_h h (VRef i) k (VStr s) = h'"
      using i ci define_own_present [OF zq] wq by (simp add: set_prop_h_def h'_def)
    ultimately show ?thesis by (simp add: set_input_h_def)
  qed
  have pure: "set_input j k (JStr s) = JObj nm'"
  proof -
    have "set_prop (JObj im) k (JStr s) = JObj im'"
      using define_own_present [OF gk] rq by (simp add: im'_def)
    then show ?thesis
      using gi j define_own_present [OF mi] rp by (simp add: set_input_def nm'_def)
  qed
  have kim: "map fst im' = map fst im" "map snd im' = (map snd im)[q := JStr s]"
    using q by (simp_all add: im'_def map_update list_update_same_conv)
  have knm: "map fst nm' = map fst nm" "map snd nm' = (map snd nm)[p := JObj im']"
    using p by (simp_all add: nm'_def map_update list_update_same_conv)
  have len': "length h' = length h" by (simp add: h'_def)
  have other: "h' ! b = h ! b" if "b \<noteq> i" for b using that by (simp add: h'_def)
  from trees_focus [OF tsi, of q] q lenw obtain lq hq
    where tq: "tree h lq hq (ws ! q) (map snd im ! q)"
    and rebuild2: "\<And>h' v' j'.
        (\<forall>b. lp \<le> b \<and> b < i \<and> (b < lq \<or> hq \<le> b) \<longrightarrow> b < length h' \<and> h' ! b = h ! b) \<Longrightarrow>
        tree h' lq hq v' j' \<Longrightarrow> trees h' lp i (ws[q := v']) ((map snd im)[q := j'])"
    by auto
  have "lq \<le> hq" using tq by (rule tree_bounds(1))
  then have "tree h' lq hq (VStr s) (JStr s)" by (rule tree_trees.t_str)
  moreover have "\<forall>b. lp \<le> b \<and> b < i \<and> (b < lq \<or> hq \<le> b) \<longrightarrow> b < length h' \<and> h' ! b = h ! b"
    using other len' i by auto
  ultimately have "trees h' lp i (ws[q := VStr s]) ((map snd im)[q := JStr s])"
    using rebuild2 by blast
  then have "trees h' lp i (ws[q := VStr s]) (map snd im')" using kim by simp
  moreover have "i < length h'" using i len' by simp
  moreover have "h' ! i = HObject (zip (map fst im') (ws[q := VStr s]))"
    using i kim by (simp add: h'_def)
  ultimately have ti: "tree h' lp (Suc i) (VRef i) (JObj im')" by (rule tree_trees.t_obj)
  have "\<forall>b. lo \<le> b \<and> b < a \<and> (b < lp \<or> hp \<le> b) \<longrightarrow> b < length h' \<and> h' ! b = h ! b"
    using other len' a lpi hp by auto
  then have "trees h' lo a (vs[p := VRef i]) ((map snd nm)[p := JObj im'])"
    using rebuild1 ti hp by blast
  moreover have "vs[p := VRef i] = vs" using vp by (metis list_update_id)
  ultimately have "trees h' lo a vs (map snd nm')" using knm by simp
  moreover have "a < length h'" using a len' by simp
  moreover have "h' ! a = HObject (zip (map fst nm') vs)"
    using other [of a] ca knm hp lp by auto
  ultimately have "tree h' lo (Suc a) (VRef a) (JObj nm')" by (rule tree_trees.t_obj)
  moreover have "sim lo hi h h'"
    using other len' lp lpi hp hi by (auto simp: sim_def)
  ultimately show ?thesis using heap pure v hi by simp
qed


lemma step_sim:
  assumes t: "tree h lo hi v j" and c: "ch = cj"
  shows "tree (if ch \<and> has_truthy_input_h h v k then set_input_h h v k (VStr s) else h) lo hi v
              (if cj \<and> has_truthy_input j k then set_input j k (JStr s) else j)
       \<and> sim lo hi h (if ch \<and> has_truthy_input_h h v k then set_input_h h v k (VStr s) else h)"
proof (cases "cj \<and> has_truthy_input j k")
  case True
  then have f: "ch \<and> has_truthy_input_h h v k" using c tree_has_truthy_input [OF t] by simp
  have "(if ch \<and> has_truthy_input_h h v k then set_input_h h v k (VStr s) else h)
          = set_input_h h v k (VStr s)"
    using f by (rule if_P)
  moreover have "(if cj \<and> has_truthy_input j k then set_input j k (JStr s) else j)
          = set_input j k (JStr s)"
    using True by (rule if_P)
  moreover have "has_truthy_input j k" using True by simp
  ultimately show ?thesis using set_input_sim [OF t, of k s] by simp
next
  case False
  then have f: "\<not> (ch \<and> has_truthy_input_h h v k)" using c tree_has_truthy_input [OF t] by simp
  have "(if ch \<and> has_truthy_input_h h v k then set_input_h h v k (VStr s) else h) = h"
    using f by (rule if_not_P)
  moreover have "(if cj \<and> has_truthy_input j k then set_input j k (JStr s) else j) = j"
    using False by (rule if_not_P)
  ultimately show ?thesis using t sim_refl [of lo hi h] by simp
qed

lemma patch_node_A_sim:
  assumes t: "tree h lo hi v j"
  shows "case patch_node_A A j of
           Inl e \<Rightarrow> patch_node_h_A A v h = (Some e, h)
         | Inr j' \<Rightarrow> (\<exists>h'. patch_node_h_A A v h = (None, h') \<and> tree h' lo hi v j' \<and> sim lo hi h h')"
proof (cases "j = JNull")
  case True
  then have "v = VNull" using tree_values(2) [OF t] by simp
  then show ?thesis using True by (simp add: patch_node_A_def patch_node_h_A_def)
next
  case False
  then have vn: "v \<noteq> VNull" using tree_values(2) [OF t] by simp
  define h1 where "h1 = (if class_is_h h v ''LoadImage'' \<and> has_truthy_input_h h v ''image''
                  then set_input_h h v ''image'' (VStr A) else h)"
  define h2 where "h2 = (if class_is_h h1 v ''SaveImage'' \<and> has_truthy_input_h h1 v ''filename_prefix''
                  then set_input_h h1 v ''filename_prefix'' (VStr OUTPUT_PREFIX) else h1)"
  define h3 where "h3 = (if class_is_h h2 v ''SaveGLB'' \<and> has_truthy_input_h h2 v ''filename_prefix''
                  then set_input_h h2 v ''filename_prefix''
                         (VStr (MESH_FOLDER @ ''/'' @ OUTPUT_PREFIX))
                  else h2)"
  define h4 where "h4 = (if (class_is_h h3 v ''LoadImageMask'' \<or> class_is_h h3 v ''ImageInput'')
                     \<and> has_truthy_input_h h3 v ''image''
                  then set_input_h h3 v ''image'' (VStr A) else h3)"
  define n1 where "n1 = (if class_is j ''LoadImage'' \<and> has_truthy_input j ''image''
                  then set_input j ''image'' (JStr A) else j)"
  define n2 where "n2 = (if class_is n1 ''SaveImage'' \<and> has_truthy_input n1 ''filename_prefix''
                  then set_input n1 ''filename_prefix'' (JStr OUTPUT_PREFIX) else n1)"
  define n3 where "n3 = (if class_is n2 ''SaveGLB'' \<and> has_truthy_input n2 ''filename_prefix''
                  then set_input n2 ''filename_prefix'' (JStr (MESH_FOLDER @ ''/'' @ OUTPUT_PREFIX))
                  else n2)"
  define n4 where "n4 = (if (class_is n3 ''LoadImageMask'' \<or> class_is n3 ''ImageInput'')
                     \<and> has_truthy_input n3 ''image''
                  then set_input n3 ''image'' (JStr A) else n3)"
  have s1: "tree h1 lo hi v n1 \<and> sim lo hi h h1"
    unfolding h1_def n1_def using t tree_class_is [OF t] by (intro step_sim) simp_all
  then have t1: "tree h1 lo hi v n1" by simp
  have s2: "tree h2 lo hi v n2 \<and> sim lo hi h1 h2"
    unfolding h2_def n2_def using t1 tree_class_is [OF t1] by (intro step_sim) simp_all
  then have t2: "tree h2 lo hi v n2" by simp
  have s3: "tree h3 lo hi v n3 \<and> sim lo hi h2 h3"
    unfolding h3_def n3_def using t2 tree_class_is [OF t2] by (intro step_sim) simp_all
  then have t3: "tree h3 lo hi v n3" by simp
  have s4: "tree h4 lo hi v n4 \<and> sim lo hi h3 h4"
    unfolding h4_def n4_def using t3 tree_class_is [OF t3] by (intro step_sim) simp_all
  have sm: "sim lo hi h h4" using s1 s2 s3 s4 sim_trans by blast
  have ph: "patch_node_h_A A v h = (None, h4)"
    unfolding patch_node_h_A_def Let_def h4_def h3_def h2_def h1_def
    using vn by (simp only: if_False)
  have pp: "patch_node_A A j = Inr n4"
    unfolding patch_node_A_def Let_def n4_def n3_def n2_def n1_def
    using False by (simp only: if_False)
  show ?thesis using ph pp s4 sm by simp
qed

lemma patch_node_B_sim:
  assumes t: "tree h lo hi v j"
  shows "case patch_node_B A j of
           Inl e \<Rightarrow> patch_node_h_B A v h = (Some e, h)
         | Inr j' \<Rightarrow> (\<exists>h'. patch_node_h_B A v h = (None, h') \<and> tree h' lo hi v j' \<and> sim lo hi h h')"
proof (cases "j = JNull")
  case True
  then have "v = VNull" using tree_values(2) [OF t] by simp
  then show ?thesis using True by (simp add: patch_node_B_def patch_node_h_B_def)
next
  case False
  then have vn: "v \<noteq> VNull" using tree_values(2) [OF t] by simp
  define h1 where "h1 = (if class_is_h h v ''LoadImage'' \<and> has_truthy_input_h h v ''image''
                  then set_input_h h v ''image'' (VStr A) else h)"
  define h2 where "h2 = (if class_is_h h1 v ''SaveGLB'' \<and> has_truthy_input_h h1 v ''filename_prefix''
                  then set_input_h h1 v ''filename_prefix'' (VStr OUTPUT_PREFIX) else h1)"
  define h3 where "h3 = (if (class_is_h h2 v ''LoadImageMask'' \<or> class_is_h h2 v ''ImageInput'')
                     \<and> has_truthy_input_h h2 v ''image''
                  then set_input_h h2 v ''image'' (VStr A) else h2)"
  define n1 where "n1 = (if class_is j ''LoadImage'' \<and> has_truthy_input j ''image''
                  then set_input j ''image'' (JStr A) else j)"
  define n2 where "n2 = (if class_is n1 ''SaveGLB'' \<and> has_truthy_input n1 ''filename_prefix''
                  then set_input n1 ''filename_prefix'' (JStr OUTPUT_PREFIX) else n1)"
  define n3 where "n3 = (if (class_is n2 ''LoadImageMask'' \<or> class_is n2 ''ImageInput'')
                     \<and> has_truthy_input n2 ''image''
                  then set_input n2 ''image'' (JStr A) else n2)"
  have s1: "tree h1 lo hi v n1 \<and> sim lo hi h h1"
    unfolding h1_def n1_def using t tree_class_is [OF t] by (intro step_sim) simp_all
  then have t1: "tree h1 lo hi v n1" by simp
  have s2: "tree h2 lo hi v n2 \<and> sim lo hi h1 h2"
    unfolding h2_def n2_def using t1 tree_class_is [OF t1] by (intro step_sim) simp_all
  then have t2: "tree h2 lo hi v n2" by simp
  have s3: "tree h3 lo hi v n3 \<and> sim lo hi h2 h3"
    unfolding h3_def n3_def using t2 tree_class_is [OF t2] by (intro step_sim) simp_all
  have sm: "sim lo hi h h3" using s1 s2 s3 sim_trans by blast
  have ph: "patch_node_h_B A v h = (None, h3)"
    unfolding patch_node_h_B_def Let_def h3_def h2_def h1_def
    using vn by (simp only: if_False)
  have pp: "patch_node_B A j = Inr n3"
    unfolding patch_node_B_def Let_def n3_def n2_def n1_def
    using False by (simp only: if_False)
  show ?thesis using ph pp s3 sm by simp
qed


lemma for_in_keys_sim:
  assumes bs: "\<And>h lo hi v j. tree h lo hi v j \<Longrightarrow>
      (case bodyp j of
         Inl e \<Rightarrow> bodyh v h = (Some e, h)
       | Inr j' \<Rightarrow> (\<exists>h'. bodyh v h = (None, h') \<and> tree h' lo hi v j' \<and> sim lo hi h h'))"
  shows "tree h lo (Suc r) (VRef r) (JObj ms) \<Longrightarrow> distinct (map fst ms) \<Longrightarrow> p \<le> length ms \<Longrightarrow>
     (case for_in (on_member bodyp) (drop p ms) of
        Inl e \<Rightarrow> (\<exists>h'. for_in_keys bodyh (VRef r) (drop p (map fst ms)) h = (Some e, h'))
      | Inr tail \<Rightarrow> (\<exists>h'. for_in_keys bodyh (VRef r) (drop p (map fst ms)) h = (None, h')
                     \<and> tree h' lo (Suc r) (VRef r) (JObj (take p ms @ tail))))"
proof (induction "length ms - p" arbitrary: p h ms)
  case 0
  then have "p = length ms" by simp
  then show ?case using 0 by simp
next
  case (Suc n)
  then have p: "p < length ms" by simp
  from Suc.prems(1) obtain vs where ts: "trees h lo r vs (map snd ms)"
    and r: "r < length h" and cr: "h ! r = HObject (zip (map fst ms) vs)"
    by (auto elim: tree_objE)
  have len: "length vs = length ms" using ts tree_bounds(2) by fastforce
  define k where "k = fst (ms ! p)"
  have dk: "drop p (map fst ms) = k # drop (Suc p) (map fst ms)"
    using p by (simp add: k_def Cons_nth_drop_Suc [symmetric] drop_map)
  have dm: "drop p ms = ms ! p # drop (Suc p) ms"
    using p by (simp add: Cons_nth_drop_Suc)
  have "map_of (zip (map fst ms) vs) (map fst ms ! p) = Some (vs ! p)"
    using Suc.prems(2) len p by (intro map_of_zip_nth) simp_all
  then have g: "get_prop_h h (VRef r) k = Some (vs ! p)"
    using r cr p by (simp add: get_prop_h_def k_def)
  from trees_focus [OF ts, of p] p len obtain lp hp where lp: "lo \<le> lp" "hp \<le> r"
    and tp: "tree h lp hp (vs ! p) (snd (ms ! p))"
    and rebuild: "\<And>h' v' j'.
        (\<forall>b. lo \<le> b \<and> b < r \<and> (b < lp \<or> hp \<le> b) \<longrightarrow> b < length h' \<and> h' ! b = h ! b) \<Longrightarrow>
        tree h' lp hp v' j' \<Longrightarrow> trees h' lo r (vs[p := v']) ((map snd ms)[p := j'])"
    by auto
  show ?case
  proof (cases "bodyp (snd (ms ! p))")
    case (Inl e)
    then have "bodyh (vs ! p) h = (Some e, h)" using bs [OF tp] by simp
    then have "for_in_keys bodyh (VRef r) (drop p (map fst ms)) h = (Some e, h)"
      using dk g by simp
    moreover have "for_in (on_member bodyp) (drop p ms) = Inl e"
      using dm Inl by (simp add: on_member_def)
    ultimately show ?thesis by simp
  next
    case (Inr j')
    then obtain h1 where b1: "bodyh (vs ! p) h = (None, h1)" and t1: "tree h1 lp hp (vs ! p) j'"
      and s1: "sim lp hp h h1"
      using bs [OF tp] by auto
    have frame: "\<forall>b. lo \<le> b \<and> b < r \<and> (b < lp \<or> hp \<le> b) \<longrightarrow> b < length h1 \<and> h1 ! b = h ! b"
      using s1 r by (auto simp: sim_def)
    have "trees h1 lo r (vs[p := vs ! p]) ((map snd ms)[p := j'])"
      using rebuild [OF frame t1] .
    then have ts1: "trees h1 lo r vs ((map snd ms)[p := j'])" by simp
    define ms1 where "ms1 = ms[p := (k, j')]"
    have k1: "map fst ms1 = map fst ms" "map snd ms1 = (map snd ms)[p := j']"
      using p by (simp_all add: ms1_def k_def map_update list_update_same_conv)
    have "h1 ! r = h ! r" "length h1 = length h" using s1 lp by (auto simp: sim_def)
    then have "r < length h1" "h1 ! r = HObject (zip (map fst ms1) vs)"
      using r cr k1 by simp_all
    moreover have "trees h1 lo r vs (map snd ms1)" using ts1 k1 by simp
    ultimately have tr1: "tree h1 lo (Suc r) (VRef r) (JObj ms1)"
      by (intro tree_trees.t_obj)
    have n: "n = length ms1 - Suc p" using Suc.hyps(2) by (simp add: ms1_def)
    have d1: "distinct (map fst ms1)" using Suc.prems(2) k1 by simp
    have p1: "Suc p \<le> length ms1" using p by (simp add: ms1_def)
    have rest: "drop (Suc p) ms1 = drop (Suc p) ms" by (simp add: ms1_def)
    have tk: "take (Suc p) ms1 = take p ms @ [(k, j')]"
      using p by (simp add: ms1_def take_Suc_conv_app_nth)
    have ih: "case for_in (on_member bodyp) (drop (Suc p) ms) of
        Inl e \<Rightarrow> (\<exists>h'. for_in_keys bodyh (VRef r) (drop (Suc p) (map fst ms)) h1 = (Some e, h'))
      | Inr tail \<Rightarrow> (\<exists>h'. for_in_keys bodyh (VRef r) (drop (Suc p) (map fst ms)) h1 = (None, h')
                     \<and> tree h' lo (Suc r) (VRef r) (JObj (take p ms @ (k, j') # tail)))"
      using Suc.hyps(1) [OF n tr1 d1 p1] rest tk k1 by (simp split: sum.splits)
    have hl: "for_in_keys bodyh (VRef r) (drop p (map fst ms)) h
          = for_in_keys bodyh (VRef r) (drop (Suc p) (map fst ms)) h1"
      using dk g b1 by simp
    have om: "on_member bodyp (ms ! p) = Inr (k, j')"
      using Inr by (simp add: on_member_def k_def)
    show ?thesis
    proof (cases "for_in (on_member bodyp) (drop (Suc p) ms)")
      case (Inl e)
      then show ?thesis using ih hl dm om by simp
    next
      case (Inr tail)
      then show ?thesis using ih hl dm om by simp
    qed
  qed
qed

lemma for_in_indices_sim:
  assumes bs: "\<And>h lo hi v j. tree h lo hi v j \<Longrightarrow>
      (case bodyp j of
         Inl e \<Rightarrow> bodyh v h = (Some e, h)
       | Inr j' \<Rightarrow> (\<exists>h'. bodyh v h = (None, h') \<and> tree h' lo hi v j' \<and> sim lo hi h h'))"
  shows "tree h lo (Suc r) (VRef r) (JArr xs) \<Longrightarrow> p \<le> length xs \<Longrightarrow>
     (case for_in bodyp (drop p xs) of
        Inl e \<Rightarrow> (\<exists>h'. for_in_indices bodyh (VRef r) [p..<length xs] h = (Some e, h'))
      | Inr tail \<Rightarrow> (\<exists>h'. for_in_indices bodyh (VRef r) [p..<length xs] h = (None, h')
                     \<and> tree h' lo (Suc r) (VRef r) (JArr (take p xs @ tail))))"
proof (induction "length xs - p" arbitrary: p h xs)
  case 0
  then have "p = length xs" by simp
  then show ?case using 0 by simp
next
  case (Suc n)
  then have p: "p < length xs" by simp
  from Suc.prems(1) obtain vs where ts: "trees h lo r vs xs"
    and r: "r < length h" and cr: "h ! r = HArray vs"
    by (auto elim: tree_arrE)
  have len: "length vs = length xs" using ts tree_bounds(2) by fastforce
  have dk: "[p..<length xs] = p # [Suc p..<length xs]"
    using p by (simp add: upt_conv_Cons)
  have dm: "drop p xs = xs ! p # drop (Suc p) xs"
    using p by (simp add: Cons_nth_drop_Suc)
  have g: "get_index_h h (VRef r) p = Some (vs ! p)"
    using r cr p len by (simp add: get_index_h_def)
  from trees_focus [OF ts, of p] p len obtain lp hp where lp: "lo \<le> lp" "hp \<le> r"
    and tp: "tree h lp hp (vs ! p) (xs ! p)"
    and rebuild: "\<And>h' v' j'.
        (\<forall>b. lo \<le> b \<and> b < r \<and> (b < lp \<or> hp \<le> b) \<longrightarrow> b < length h' \<and> h' ! b = h ! b) \<Longrightarrow>
        tree h' lp hp v' j' \<Longrightarrow> trees h' lo r (vs[p := v']) (xs[p := j'])"
    by auto
  show ?case
  proof (cases "bodyp (xs ! p)")
    case (Inl e)
    then have "bodyh (vs ! p) h = (Some e, h)" using bs [OF tp] by simp
    then have "for_in_indices bodyh (VRef r) [p..<length xs] h = (Some e, h)"
      using dk g by simp
    moreover have "for_in bodyp (drop p xs) = Inl e"
      using dm Inl by simp
    ultimately show ?thesis by simp
  next
    case (Inr j')
    then obtain h1 where b1: "bodyh (vs ! p) h = (None, h1)" and t1: "tree h1 lp hp (vs ! p) j'"
      and s1: "sim lp hp h h1"
      using bs [OF tp] by auto
    have frame: "\<forall>b. lo \<le> b \<and> b < r \<and> (b < lp \<or> hp \<le> b) \<longrightarrow> b < length h1 \<and> h1 ! b = h ! b"
      using s1 r by (auto simp: sim_def)
    have "trees h1 lo r (vs[p := vs ! p]) (xs[p := j'])"
      using rebuild [OF frame t1] .
    then have ts1: "trees h1 lo r vs (xs[p := j'])" by simp
    define xs1 where "xs1 = xs[p := j']"
    have "h1 ! r = h ! r" "length h1 = length h" using s1 lp by (auto simp: sim_def)
    then have "r < length h1" "h1 ! r = HArray vs"
      using r cr by simp_all
    moreover have "trees h1 lo r vs xs1" using ts1 by (simp add: xs1_def)
    ultimately have tr1: "tree h1 lo (Suc r) (VRef r) (JArr xs1)"
      by (intro tree_trees.t_arr)
    have n: "n = length xs1 - Suc p" using Suc.hyps(2) by (simp add: xs1_def)
    have p1: "Suc p \<le> length xs1" using p by (simp add: xs1_def)
    have rest: "drop (Suc p) xs1 = drop (Suc p) xs" by (simp add: xs1_def)
    have l1: "length xs1 = length xs" by (simp add: xs1_def)
    have tk: "take (Suc p) xs1 = take p xs @ [j']"
      using p by (simp add: xs1_def take_Suc_conv_app_nth)
    have ih: "case for_in bodyp (drop (Suc p) xs) of
        Inl e \<Rightarrow> (\<exists>h'. for_in_indices bodyh (VRef r) [Suc p..<length xs] h1 = (Some e, h'))
      | Inr tail \<Rightarrow> (\<exists>h'. for_in_indices bodyh (VRef r) [Suc p..<length xs] h1 = (None, h')
                     \<and> tree h' lo (Suc r) (VRef r) (JArr (take p xs @ j' # tail)))"
      using Suc.hyps(1) [OF n tr1 p1] rest tk l1 by (simp split: sum.splits)
    have hl: "for_in_indices bodyh (VRef r) [p..<length xs] h
          = for_in_indices bodyh (VRef r) [Suc p..<length xs] h1"
      using dk g b1 by simp
    show ?thesis
    proof (cases "for_in bodyp (drop (Suc p) xs)")
      case (Inl e)
      then show ?thesis using ih hl dm \<open>bodyp (xs ! p) = Inr j'\<close> by simp
    next
      case (Inr tail)
      then show ?thesis using ih hl dm \<open>bodyp (xs ! p) = Inr j'\<close> by simp
    qed
  qed
qed


lemma update_nodes_sim:
  assumes bs: "\<And>h lo hi v j. tree h lo hi v j \<Longrightarrow>
      (case bodyp j of
         Inl e \<Rightarrow> bodyh v h = (Some e, h)
       | Inr j' \<Rightarrow> (\<exists>h'. bodyh v h = (None, h') \<and> tree h' lo hi v j' \<and> sim lo hi h h'))"
    and t: "tree h lo hi u j" and c: "canonical j"
  shows "case update_nodes bodyp j of
           Inl e \<Rightarrow> (\<exists>h'. update_nodes_h bodyh u h = (Some e, h'))
         | Inr j' \<Rightarrow> (\<exists>h'. update_nodes_h bodyh u h = (None, h') \<and> tree h' lo hi u j')"
proof (cases j)
  case (JObj ms)
  with t obtain r vs where u: "u = VRef r" and hi: "hi = Suc r"
    and ts: "trees h lo r vs (map snd ms)"
    and r: "r < length h" and cr: "h ! r = HObject (zip (map fst ms) vs)"
    by (auto elim: tree_objE)
  have len: "length vs = length ms" using ts tree_bounds(2) by fastforce
  have d: "distinct (map fst ms)" using c JObj by (simp add: canon_keys_def)
  have tr: "tree h lo (Suc r) (VRef r) (JObj ms)" using t u hi JObj by simp
  have uh: "update_nodes_h bodyh u h = for_in_keys bodyh (VRef r) (map fst ms) h"
    using u r cr len by (simp add: update_nodes_h_def)
  from for_in_keys_sim [where bodyp = bodyp and bodyh = bodyh and p = 0, OF bs tr d]
  have "case for_in (on_member bodyp) ms of
        Inl e \<Rightarrow> (\<exists>h'. for_in_keys bodyh (VRef r) (map fst ms) h = (Some e, h'))
      | Inr tail \<Rightarrow> (\<exists>h'. for_in_keys bodyh (VRef r) (map fst ms) h = (None, h')
                     \<and> tree h' lo (Suc r) (VRef r) (JObj tail))"
    by (simp split: sum.splits)
  then show ?thesis using uh JObj u hi by (simp split: sum.splits)
next
  case (JArr xs)
  with t obtain r vs where u: "u = VRef r" and hi: "hi = Suc r"
    and ts: "trees h lo r vs xs"
    and r: "r < length h" and cr: "h ! r = HArray vs"
    by (auto elim: tree_arrE)
  have len: "length vs = length xs" using ts tree_bounds(2) by fastforce
  have tr: "tree h lo (Suc r) (VRef r) (JArr xs)" using t u hi JArr by simp
  have uh: "update_nodes_h bodyh u h = for_in_indices bodyh (VRef r) [0..<length xs] h"
    using u r cr len by (simp add: update_nodes_h_def)
  from for_in_indices_sim [where bodyp = bodyp and bodyh = bodyh and p = 0, OF bs tr]
  have "case for_in bodyp xs of
        Inl e \<Rightarrow> (\<exists>h'. for_in_indices bodyh (VRef r) [0..<length xs] h = (Some e, h'))
      | Inr tail \<Rightarrow> (\<exists>h'. for_in_indices bodyh (VRef r) [0..<length xs] h = (None, h')
                     \<and> tree h' lo (Suc r) (VRef r) (JArr tail))"
    by (simp split: sum.splits)
  then show ?thesis using uh JArr u hi by (simp split: sum.splits)
next
  case JNull
  then have "u = VNull" using t by (auto elim: tree_nullE)
  then show ?thesis using JNull t by (simp add: update_nodes_h_def)
next
  case (JBool b)
  then have "u = VBool b" using t by (auto elim: tree_boolE)
  then show ?thesis using JBool t by (simp add: update_nodes_h_def)
next
  case (JNum x)
  then have "u = VNum x" using t by (auto elim: tree_numE)
  then show ?thesis using JNum t by (simp add: update_nodes_h_def)
next
  case (JStr x)
  then have "u = VStr x" using t by (auto elim: tree_strE)
  then show ?thesis using JStr t by (simp add: update_nodes_h_def)
qed

lemma update_h_sim:
  assumes bs: "\<And>h lo hi v j. tree h lo hi v j \<Longrightarrow>
      (case bodyp j of
         Inl e \<Rightarrow> bodyh v h = (Some e, h)
       | Inr j' \<Rightarrow> (\<exists>h'. bodyh v h = (None, h') \<and> tree h' lo hi v j' \<and> sim lo hi h h'))"
    and s: "stringify_val h [] w = Inr j" and c: "canonical j"
  shows "case update_nodes bodyp j of
           Inl e \<Rightarrow> fst (update_h bodyh w h) = Inl e
         | Inr j' \<Rightarrow> (\<exists>u. fst (update_h bodyh w h) = Inr u
                         \<and> stringify_val (snd (update_h bodyh w h)) [] u = Inr j')"
proof -
  obtain u h1 where p: "JSON_parse j h = (u, h1)" by (cases "JSON_parse j h")
  have "plain j" using stringify_plain(1) [of h "[]" w] s by blast
  then have t: "tree h1 (length h) (length h1) u j" using parse_tree(1) [of j h] c p by blast
  show ?thesis
  proof (cases "update_nodes bodyp j")
    case (Inl e)
    then obtain h2 where "update_nodes_h bodyh u h1 = (Some e, h2)"
      using update_nodes_sim [where bodyp = bodyp and bodyh = bodyh, OF bs t c] by auto
    then show ?thesis using s p Inl by (simp add: update_h_def)
  next
    case (Inr j')
    then obtain h2 where un: "update_nodes_h bodyh u h1 = (None, h2)"
      and t2: "tree h2 (length h) (length h1) u j'"
      using update_nodes_sim [where bodyp = bodyp and bodyh = bodyh, OF bs t c] by auto
    have "stringify_val h2 [] u = Inr j'" using tree_stringify(1) [OF t2] by simp
    then show ?thesis using s p un Inr by (simp add: update_h_def)
  qed
qed

lemma read_result_extends:
  assumes "read_result r h = Inr P" "extends h h'"
  shows "read_result r h' = Inr P"
proof (cases r)
  case (Inl e)
  then show ?thesis using assms by (simp add: read_result_def)
next
  case (Inr u)
  then show ?thesis using assms stringify_extends(1) [of h h' "[]" u]
    by (simp add: read_result_def)
qed

lemma two_calls:
  assumes bs: "\<And>h lo hi v j. tree h lo hi v j \<Longrightarrow>
      (case bodyp j of
         Inl e \<Rightarrow> bodyh v h = (Some e, h)
       | Inr j' \<Rightarrow> (\<exists>h'. bodyh v h = (None, h') \<and> tree h' lo hi v j' \<and> sim lo hi h h'))"
    and kp: "\<And>L v h. region L h \<Longrightarrow> fresh L v \<Longrightarrow> keeps L h (snd (bodyh v h))"
    and s: "stringify_val h [] w = Inr T" and c: "canonical T"
    and c1: "c1 = update_h bodyh w h" and c2: "c2 = update_h bodyh w (snd c1)"
  shows "read_result (fst c1) (snd c2) = update_nodes bodyp T
       \<and> read_result (fst c2) (snd c2) = update_nodes bodyp T"
proof -
  have e1: "extends h (snd c1)" unfolding c1 using kp by (rule update_h_extends)
  have e2: "extends (snd c1) (snd c2)" unfolding c2 using kp by (rule update_h_extends)
  have s1: "stringify_val (snd c1) [] w = Inr T"
    using stringify_extends(1) [of h "snd c1" "[]" w] e1 s by blast
  have r1: "case update_nodes bodyp T of
           Inl e \<Rightarrow> fst c1 = Inl e
         | Inr j' \<Rightarrow> (\<exists>u. fst c1 = Inr u \<and> stringify_val (snd c1) [] u = Inr j')"
    unfolding c1 using bs s c by (rule update_h_sim)
  have r2': "case update_nodes bodyp T of
           Inl e \<Rightarrow> fst c2 = Inl e
         | Inr j' \<Rightarrow> (\<exists>u. fst c2 = Inr u \<and> stringify_val (snd c2) [] u = Inr j')"
    unfolding c2 using bs s1 c by (rule update_h_sim)
  have r2: "read_result (fst c2) (snd c2) = update_nodes bodyp T"
    using r2' by (auto simp: read_result_def split: sum.splits)
  have "read_result (fst c1) (snd c2) = update_nodes bodyp T"
  proof (cases "update_nodes bodyp T")
    case (Inl e)
    then have "fst c1 = Inl e" using r1 by simp
    then show ?thesis using Inl by (simp add: read_result_def)
  next
    case (Inr P)
    then obtain u where u: "fst c1 = Inr u" "stringify_val (snd c1) [] u = Inr P"
      using r1 by auto
    have "stringify_val (snd c2) [] u = Inr P"
      using stringify_extends(1) [of "snd c1" "snd c2" "[]" u] e2 u(2) by blast
    then show ?thesis using Inr u(1) by (simp add: read_result_def)
  qed
  then show ?thesis using r2 by simp
qed


text \<open>
  Claim C9. Two calls with the same template and asset name, the second made in the heap
  the first one left, give equal results: both throw the same error, or both return a
  value, and the two values (different objects) serialise to the same document. That
  document is the one the function \<open>updateWorkflowWithImage\<close> on values computes from the
  template's document alone; no state of the heap enters it. The template is a value as
  \<^verbatim>\<open>JSON.parse\<close> builds it: it serialises, to a canonical document.
\<close>

theorem C9_deterministic:
  assumes "stringify_val h [] workflow = Inr T" and "canonical T"
  shows "(let c1 = updateWorkflowWithImage_h_A workflow imageName h;
              c2 = updateWorkflowWithImage_h_A workflow imageName (snd c1)
          in read_result (fst c1) (snd c2) = read_result (fst c2) (snd c2)
             \<and> read_result (fst c2) (snd c2) = updateWorkflowWithImage_A T imageName)
       \<and> (let c1 = updateWorkflowWithImage_h_B workflow imageName h;
              c2 = updateWorkflowWithImage_h_B workflow imageName (snd c1)
          in read_result (fst c1) (snd c2) = read_result (fst c2) (snd c2)
             \<and> read_result (fst c2) (snd c2) = updateWorkflowWithImage_B T imageName)"
proof -
  have "plain T" using stringify_plain(1) [of h "[]" workflow] assms(1) by blast
  then have d: "deep_clone T = T" using assms(2) by (intro deep_clone_canonical)
  have a: "read_result (fst c1) (snd c2) = update_nodes (patch_node_A imageName) T
       \<and> read_result (fst c2) (snd c2) = update_nodes (patch_node_A imageName) T"
    if "c1 = update_h (patch_node_h_A imageName) workflow h"
      and "c2 = update_h (patch_node_h_A imageName) workflow (snd c1)" for c1 c2
    using patch_node_A_sim patch_node_h_A_keeps assms that
    by (rule two_calls [where bodyp = "patch_node_A imageName"
          and bodyh = "patch_node_h_A imageName"])
  have b: "read_result (fst c1) (snd c2) = update_nodes (patch_node_B imageName) T
       \<and> read_result (fst c2) (snd c2) = update_nodes (patch_node_B imageName) T"
    if "c1 = update_h (patch_node_h_B imageName) workflow h"
      and "c2 = update_h (patch_node_h_B imageName) workflow (snd c1)" for c1 c2
    using patch_node_B_sim patch_node_h_B_keeps assms that
    by (rule two_calls [where bodyp = "patch_node_B imageName"
          and bodyh = "patch_node_h_B imageName"])
  show ?thesis
    using a [OF refl refl] b [OF refl refl] d
    by (simp add: Let_def updateWorkflowWithImage_h_A_def updateWorkflowWithImage_h_B_def
        updateWorkflowWithImage_A_def updateWorkflowWithImage_B_def)
qed

text \<open>Two calls on the heap that holds the scenario template.\<close>

theorem C9_witness:
  "stringify_val scenario_heap [] (VRef 5) = Inr scenario_template
   \<and> canonical scenario_template
   \<and> (let c1 = updateWorkflowWithImage_h_A (VRef 5) ''webcam_input.jpg'' scenario_heap;
           c2 = updateWorkflowWithImage_h_A (VRef 5) ''webcam_input.jpg'' (snd c1)
       in read_result (fst c1) (snd c2) = Inr patched_A
          \<and> read_result (fst c2) (snd c2) = Inr patched_A)
   \<and> (let c1 = updateWorkflowWithImage_h_B (VRef 5) ''webcam_input.jpg'' scenario_heap;
           c2 = updateWorkflowWithImage_h_B (VRef 5) ''webcam_input.jpg'' (snd c1)
       in read_result (fst c1) (snd c2) = Inr patched_B
          \<and> read_result (fst c2) (snd c2) = Inr patched_B)"
proof -
  have a: "updateWorkflowWithImage_A scenario_template ''webcam_input.jpg'' = Inr patched_A"
    using scenario_A by (simp add: patched_A_def)
  have b: "updateWorkflowWithImage_B scenario_template ''webcam_input.jpg'' = Inr patched_B"
    using scenario_B by (simp add: patched_B_def)
  show ?thesis
    using C9_deterministic [OF scenario_heap_reads scenario_canonical, of "''webcam_input.jpg''"]
      scenario_heap_reads scenario_canonical a b
    by (simp add: Let_def)
qed

text \<open>The parser lays the scenario template out as the example heap; the first call, evaluated.\<close>

lemma parse_scenario:
  "JSON_parse scenario_template [] = (VRef 5, scenario_heap)"
  by (simp add: scenario_template_def scenario_heap_def build_object_def define_own_def
      key_before_def array_index_def is_digit_def digits_val_def digit_val_def)

lemma heap_call_A:
  "updateWorkflowWithImage_h_A (VRef 5) ''webcam_input.jpg'' scenario_heap =
     (Inr (VRef 11),
      scenario_heap @
      [HObject [(''image'', VStr ''webcam_input.jpg'')],
       HObject [(''class_type'', VStr ''LoadImage''), (''inputs'', VRef 6)],
       HArray [VStr ''1'', VNum (Num 0)],
       HObject [(''mesh'', VRef 8), (''filename_prefix'', VStr ''mesh/webcam_3d_mesh'')],
       HObject [(''class_type'', VStr ''SaveGLB''), (''inputs'', VRef 9)],
       HObject [(''1'', VRef 7), (''2'', VRef 10)]])"
  by code_simp

end
